theory Spec2Isabelle
  imports Complex_Main "HOL-Library.Word" "HOL-Library.Log_Nat"
begin

section \<open>JavaScript values used by the video synthesis code\<close>

subsection \<open>Numbers\<close>

text \<open>
  A JavaScript number is an IEEE 754 binary64 value. A finite value is modelled by the real
  number it denotes, next to the three non-finite values. Every arithmetic operation
  computes the exact real result and rounds it to the nearest binary64 value, ties to
  even, with overflow to an infinity (\<open>round64\<close>). The sign of zero is not modelled:
  \<open>-0\<close> is identified with \<open>+0\<close>, and a zero divisor is taken to be \<open>+0\<close>.
\<close>

datatype jsnum = Fin real | PosInf | NegInf | NaN

text \<open>Rounding of a real to the nearest integer, ties to the even one.\<close>

definition rne :: "real \<Rightarrow> int" where
  "rne z = (let f = \<lfloor>z\<rfloor>; d = z - of_int f
            in if d < 1 / 2 then f else if 1 / 2 < d then f + 1
               else if even f then f else f + 1)"

text \<open>
  The binary exponent of a positive real \<open>x\<close>: the \<open>e\<close> with \<open>2^e \<le> x < 2^(e+1)\<close>,
  computed from the bit length of the integer part of \<open>x\<close> or of \<open>1 / x\<close>.
\<close>

definition expo :: "real \<Rightarrow> int" where
  "expo x = (if 1 \<le> x then bitlen \<lfloor>x\<rfloor> - 1 else - bitlen (\<lceil>1 / x\<rceil> - 1))"

text \<open>
  The spacing of the binary64 values around a positive real: 53 significant bits, and
  \<open>2^-1074\<close> throughout the subnormal range (exponents below \<open>-1022\<close>).
\<close>

definition quantum :: "real \<Rightarrow> real" where
  "quantum a = 2 powi (max (expo a) (- 1022) - 52)"

definition round_mag :: "real \<Rightarrow> real" where
  "round_mag a = of_int (rne (a / quantum a)) * quantum a"

definition round64 :: "real \<Rightarrow> jsnum" where
  "round64 x =
     (if x = 0 then Fin 0
      else if 2 ^ 1024 \<le> round_mag \<bar>x\<bar> then (if 0 < x then PosInf else NegInf)
      else Fin (if 0 < x then round_mag \<bar>x\<bar> else - round_mag \<bar>x\<bar>))"

text \<open>The reals that are binary64 values: those that rounding leaves as they are.\<close>

definition is_double :: "real \<Rightarrow> bool" where
  "is_double x = (round64 x = Fin x)"

fun js_isFinite :: "jsnum \<Rightarrow> bool" where
  "js_isFinite (Fin x) = True"
| "js_isFinite PosInf = False"
| "js_isFinite NegInf = False"
| "js_isFinite NaN = False"

fun js_neg :: "jsnum \<Rightarrow> jsnum" where
  "js_neg (Fin x) = Fin (- x)"
| "js_neg PosInf = NegInf"
| "js_neg NegInf = PosInf"
| "js_neg NaN = NaN"

fun js_add :: "jsnum \<Rightarrow> jsnum \<Rightarrow> jsnum" where
  "js_add NaN b = NaN"
| "js_add a NaN = NaN"
| "js_add (Fin x) (Fin y) = round64 (x + y)"
| "js_add (Fin x) b = b"
| "js_add a (Fin y) = a"
| "js_add PosInf PosInf = PosInf"
| "js_add NegInf NegInf = NegInf"
| "js_add PosInf NegInf = NaN"
| "js_add NegInf PosInf = NaN"

definition js_sub :: "jsnum \<Rightarrow> jsnum \<Rightarrow> jsnum" where
  "js_sub a b = js_add a (js_neg b)"

text \<open>The sign of a product or quotient with an infinite operand.\<close>

definition signed_inf :: "bool \<Rightarrow> jsnum" where
  "signed_inf positive = (if positive then PosInf else NegInf)"

fun js_mul :: "jsnum \<Rightarrow> jsnum \<Rightarrow> jsnum" where
  "js_mul NaN b = NaN"
| "js_mul a NaN = NaN"
| "js_mul (Fin x) (Fin y) = round64 (x * y)"
| "js_mul (Fin x) PosInf = (if x = 0 then NaN else signed_inf (0 < x))"
| "js_mul (Fin x) NegInf = (if x = 0 then NaN else signed_inf (x < 0))"
| "js_mul PosInf (Fin y) = (if y = 0 then NaN else signed_inf (0 < y))"
| "js_mul NegInf (Fin y) = (if y = 0 then NaN else signed_inf (y < 0))"
| "js_mul PosInf PosInf = PosInf"
| "js_mul NegInf NegInf = PosInf"
| "js_mul PosInf NegInf = NegInf"
| "js_mul NegInf PosInf = NegInf"

fun js_div :: "jsnum \<Rightarrow> jsnum \<Rightarrow> jsnum" where
  "js_div NaN b = NaN"
| "js_div a NaN = NaN"
| "js_div (Fin x) (Fin y) =
     (if y \<noteq> 0 then round64 (x / y) else if x = 0 then NaN else signed_inf (0 < x))"
| "js_div (Fin x) b = Fin 0"
| "js_div PosInf (Fin y) = signed_inf (0 \<le> y)"
| "js_div NegInf (Fin y) = signed_inf (y < 0)"
| "js_div a b = NaN"

text \<open>
  \<open>Math.floor\<close> and \<open>Math.ceil\<close>: the result is a binary64 value again, nothing is
  rounded.
\<close>

fun js_floor :: "jsnum \<Rightarrow> jsnum" where
  "js_floor (Fin x) = Fin (of_int \<lfloor>x\<rfloor>)"
| "js_floor a = a"

fun js_ceil :: "jsnum \<Rightarrow> jsnum" where
  "js_ceil (Fin x) = Fin (of_int \<lceil>x\<rceil>)"
| "js_ceil a = a"

text \<open>The relational operators: every comparison with \<open>NaN\<close> is false.\<close>

fun js_lt :: "jsnum \<Rightarrow> jsnum \<Rightarrow> bool" where
  "js_lt NaN b = False"
| "js_lt a NaN = False"
| "js_lt (Fin x) (Fin y) = (x < y)"
| "js_lt a PosInf = (a \<noteq> PosInf)"
| "js_lt NegInf b = (b \<noteq> NegInf)"
| "js_lt a b = False"

definition js_gt :: "jsnum \<Rightarrow> jsnum \<Rightarrow> bool" where
  "js_gt a b = js_lt b a"

definition js_ge :: "jsnum \<Rightarrow> jsnum \<Rightarrow> bool" where
  "js_ge a b = (a \<noteq> NaN \<and> b \<noteq> NaN \<and> \<not> js_lt a b)"

definition js_le :: "jsnum \<Rightarrow> jsnum \<Rightarrow> bool" where
  "js_le a b = js_ge b a"

text \<open>The numbers from zero upwards, \<open>Infinity\<close> included.\<close>

definition nonneg :: "jsnum \<Rightarrow> bool" where
  "nonneg a = (case a of Fin r \<Rightarrow> 0 \<le> r | PosInf \<Rightarrow> True | NegInf \<Rightarrow> False | NaN \<Rightarrow> False)"


text \<open>\<open>Math.min\<close> and \<open>Math.max\<close> of two arguments: \<open>NaN\<close> if either is.\<close>

definition js_min :: "jsnum \<Rightarrow> jsnum \<Rightarrow> jsnum" where
  "js_min a b = (if a = NaN \<or> b = NaN then NaN else if js_lt b a then b else a)"

definition js_max :: "jsnum \<Rightarrow> jsnum \<Rightarrow> jsnum" where
  "js_max a b = (if a = NaN \<or> b = NaN then NaN else if js_lt a b then b else a)"

text \<open>Strict equality \<open>===\<close> of two numbers: \<open>NaN\<close> equals nothing, itself included.\<close>

definition js_strict_eq :: "jsnum \<Rightarrow> jsnum \<Rightarrow> bool" where
  "js_strict_eq a b = (a \<noteq> NaN \<and> a = b)"

subsection \<open>Strings\<close>

text \<open>
  A JavaScript string is a sequence of 16-bit code units. The regular expressions of the
  code carry no \<open>u\<close> flag, so they work on code units too.
\<close>

type_synonym jschar = "16 word"
type_synonym jsstring = "jschar list"

text \<open>Embedding of an ASCII literal.\<close>

definition js :: "string \<Rightarrow> jsstring" where
  "js s = map (\<lambda>c. of_nat (of_char c)) s"

definition dquote :: jschar where
  "dquote = 0x22"

definition space :: jschar where
  "space = 0x20"

text \<open>
  The line terminators, which \<open>.\<close> does not match, and the white space of \<open>\s\<close> and
  \<open>trim\<close> (white space and line terminators).
\<close>

definition is_line_terminator :: "jschar \<Rightarrow> bool" where
  "is_line_terminator c = (c = 0x0A \<or> c = 0x0D \<or> c = 0x2028 \<or> c = 0x2029)"

definition is_space :: "jschar \<Rightarrow> bool" where
  "is_space c =
     (c = 0x09 \<or> c = 0x0B \<or> c = 0x0C \<or> c = 0x20 \<or> c = 0xA0 \<or> c = 0x1680
      \<or> (0x2000 \<le> c \<and> c \<le> 0x200A) \<or> c = 0x202F \<or> c = 0x205F \<or> c = 0x3000
      \<or> c = 0xFEFF \<or> is_line_terminator c)"

definition is_terminal :: "jschar \<Rightarrow> bool" where
  \<comment> \<open>the class \<open>[.!?]\<close>\<close>
  "is_terminal c = (c = 0x2E \<or> c = 0x21 \<or> c = 0x3F)"

definition trim :: "jsstring \<Rightarrow> jsstring" where
  "trim s = rev (dropWhile is_space (rev (dropWhile is_space s)))"

definition substring :: "jsstring \<Rightarrow> nat \<Rightarrow> nat \<Rightarrow> jsstring" where
  \<comment> \<open>both indices are clamped to the length and swapped when out of order\<close>
  "substring s a b =
     (let a' = min a (length s); b' = min b (length s);
          lo = min a' b'; hi = max a' b'
      in take (hi - lo) (drop lo s))"

fun join :: "jsstring \<Rightarrow> jsstring list \<Rightarrow> jsstring" where
  "join sep [] = []"
| "join sep [x] = x"
| "join sep (x # y # ys) = x @ sep @ join sep (y # ys)"

text \<open>
  \<open>script.match(/"(.*?)"/g)\<close>: all matches, left to right, each with its quotes. The
  scanner is outside a match (\<open>None\<close>) or after an opening quote, holding the characters
  seen since, newest first. A line terminator or the end of the script before the closing
  quote gives the opening quote up; no quote lies in between, so the search goes on after
  it. \<open>match\<close> returns \<open>null\<close> when there is no match: \<open>None\<close> here.
\<close>

fun match_scan :: "jsstring option \<Rightarrow> jsstring \<Rightarrow> jsstring list" where
  "match_scan st [] = []"
| "match_scan None (c # cs) =
     (if c = dquote then match_scan (Some []) cs else match_scan None cs)"
| "match_scan (Some acc) (c # cs) =
     (if c = dquote then (dquote # rev acc @ [dquote]) # match_scan None cs
      else if is_line_terminator c then match_scan None cs
      else match_scan (Some (c # acc)) cs)"

definition match_quoted :: "jsstring \<Rightarrow> jsstring list option" where
  "match_quoted script =
     (case match_scan None script of [] \<Rightarrow> None | m # ms \<Rightarrow> Some (m # ms))"

text \<open>
  \<open>s.split(/(?<=[.!?])\s+/)\<close>: the string is cut at every maximal run of white space
  that follows one of \<open>.\<close>, \<open>!\<close>, \<open>?\<close>; the run is dropped and the punctuation stays
  with the piece before it. \<open>split_scan skipping prev acc\<close> holds whether a separator is
  being skipped, the previous character (for the lookbehind) and the current piece, newest
  character first. The empty string gives one empty piece.
\<close>

fun split_scan :: "bool \<Rightarrow> jschar option \<Rightarrow> jsstring \<Rightarrow> jsstring \<Rightarrow> jsstring list" where
  "split_scan skipping prev acc [] = [rev acc]"
| "split_scan skipping prev acc (c # cs) =
     (if skipping \<and> is_space c then split_scan True (Some c) acc cs
      else if is_space c \<and> (case prev of None \<Rightarrow> False | Some p \<Rightarrow> is_terminal p)
      then rev acc # split_scan True (Some c) [] cs
      else split_scan False (Some c) (c # acc) cs)"

definition split_sentences :: "jsstring \<Rightarrow> jsstring list" where
  "split_sentences s = split_scan False None [] s"

section \<open>Caption timing: \<open>generateCaptions\<close>\<close>

record Caption =
  cap_text :: jsstring
  cap_start :: jsnum
  cap_end :: jsnum

text \<open>
  The errors a run can end with. \<open>InvalidDuration\<close> stands for the rejections
  "Invalid audio duration for caption generation." and "Invalid audio duration.",
  \<open>AudioLoadError\<close> for "Failed to load audio ...", \<open>AssetLoadError name\<close> for
  "Failed to load visual: name", \<open>RecordingError\<close> for the recorder's error event or a
  recorder that cannot be constructed, \<open>NoVisuals\<close> for "Both audio and at least one
  visual are required to create a video.".
\<close>

datatype error =
    InvalidDuration
  | AudioLoadError
  | CanvasContextError
  | AssetLoadError jsstring
  | RecordingError
  | AudioPlaybackError
  | NoVisuals
  | UploadFailed

text \<open>What loading the audio's metadata ends with: the duration, or the error event.\<close>

datatype audio_outcome = LoadedMetadata jsnum | AudioFailed

text \<open>
  The values the \<open>duration\<close> of a media element can have: \<open>NaN\<close> (not known),
  \<open>Infinity\<close> (unbounded stream) or a number of seconds from zero upwards.
\<close>

definition is_media_duration :: "jsnum \<Rightarrow> bool" where
  "is_media_duration d =
     (case d of Fin x \<Rightarrow> 0 \<le> x | PosInf \<Rightarrow> True | NegInf \<Rightarrow> False | NaN \<Rightarrow> True)"

definition fullNarration :: "jsstring list \<Rightarrow> jsstring" where
  "fullNarration narrationParts =
     trim (join [space] (map (\<lambda>part. substring part 1 (length part - 1)) narrationParts))"

definition sentences_of :: "jsstring \<Rightarrow> jsstring list" where
  "sentences_of narration =
     (let sentences = filter (\<lambda>s. trim s \<noteq> []) (split_sentences narration)
      in if length sentences = 0 \<and> length narration > 0 then sentences @ [narration]
         else sentences)"

text \<open>The \<open>forEach\<close> over the sentences, with \<open>currentTime\<close> and \<open>captions\<close> as its state.\<close>

fun captions_loop :: "jsnum \<Rightarrow> jsstring list \<Rightarrow> jsnum \<Rightarrow> Caption list \<Rightarrow> Caption list" where
  "captions_loop charsPerSecond [] currentTime captions = captions"
| "captions_loop charsPerSecond (sentence # rest) currentTime captions =
     (let sentenceDuration = js_div (Fin (real (length sentence))) charsPerSecond
      in captions_loop charsPerSecond rest (js_add currentTime sentenceDuration)
           (captions @ [\<lparr>cap_text = trim sentence, cap_start = currentTime,
                         cap_end = js_add currentTime sentenceDuration\<rparr>]))"

definition totalLength :: "jsstring list \<Rightarrow> nat" where
  "totalLength sentences = foldl (\<lambda>acc s. acc + length s) 0 sentences"

definition generateCaptions :: "jsstring \<Rightarrow> audio_outcome \<Rightarrow> error + Caption list" where
  "generateCaptions script audio =
     (case audio of
        AudioFailed \<Rightarrow> Inl AudioLoadError
      | LoadedMetadata duration \<Rightarrow>
          if \<not> js_isFinite duration \<or> js_strict_eq duration (Fin 0) then Inl InvalidDuration
          else (case match_quoted script of
                  None \<Rightarrow> Inr []
                | Some narrationParts \<Rightarrow>
                    let sentences = sentences_of (fullNarration narrationParts)
                    in if length sentences = 0 then Inr []
                       else if totalLength sentences = 0 then Inr []
                       else Inr (captions_loop
                                   (js_div (Fin (real (totalLength sentences))) duration)
                                   sentences (Fin 0) [])))"


text \<open>The sentences \<open>generateCaptions\<close> derives from a script (none without a match).\<close>

definition script_sentences :: "jsstring \<Rightarrow> jsstring list" where
  "script_sentences script =
     (case match_quoted script of
        None \<Rightarrow> []
      | Some narrationParts \<Rightarrow> sentences_of (fullNarration narrationParts))"

section \<open>Rendering and recording: \<open>createVideoBlob\<close>\<close>

subsection \<open>Data\<close>

record VisualAsset =
  name :: jsstring
  dataUrl :: jsstring

record VideoDetails =
  title :: jsstring
  description :: jsstring
  tags :: "jsstring list"
  visuals :: "VisualAsset list"
  voice :: jsstring
  audioDataUrl :: "jsstring option"
  script :: jsstring
  youtubeVideoId :: "jsstring option"

text \<open>
  A loaded media element with the dimensions it reports: \<open>videoWidth\<close> and
  \<open>videoHeight\<close>, or \<open>naturalWidth\<close> and \<open>naturalHeight\<close>.
\<close>

datatype media = HTMLVideoElement nat nat | HTMLImageElement nat nat

text \<open>What loading one visual ends with: the element's dimensions, or the error event.\<close>

datatype load_outcome = Loaded nat nat | LoadFailed

type_synonym blob = "8 word list"

text \<open>
  The events the browser delivers to a started run: a tick of the interval timer, the
  recorder's \<open>dataavailable\<close>, \<open>error\<close> and \<open>stop\<close> events, and the rejection of
  \<open>audio.play()\<close>.
\<close>

datatype event = Tick | DataAvailable blob | RecorderError | RecorderStop | AudioPlayRejected

text \<open>
  What the upload library reports. \<open>onError\<close>: the handler reads
  \<open>JSON.parse(err).error.message\<close>, which throws when the payload is not of that shape
  (\<open>OnErrorMalformed\<close>). \<open>onComplete\<close>: the handler parses the response, which throws
  when it is not JSON (\<open>OnCompleteMalformed\<close>), and reads its id.
\<close>

datatype upload_outcome =
    OnError
  | OnErrorMalformed
  | OnComplete "jsstring option"
  | OnCompleteMalformed

text \<open>
  Everything the code asks of its environment: the canvas context, the outcome of loading
  the audio at an address and each visual at its address, whether a recorder can be
  constructed, the events of the run, the signed-in token and the upload's outcome.
\<close>

record browser =
  context2d :: bool
  audio_of :: "jsstring \<Rightarrow> audio_outcome"
  visual_of :: "jsstring \<Rightarrow> load_outcome"
  recorder_supported :: bool
  events :: "event list"
  access_token :: "jsstring option"
  upload_outcome_of :: "blob \<Rightarrow> upload_outcome"

datatype promise = Pending | Fulfilled blob | Rejected error

datatype recorder_state = Recording | Inactive

text \<open>One call of \<open>drawImage\<close>: the destination rectangle of the media drawn.\<close>

record drawImage_call =
  dx :: jsnum
  dy :: jsnum
  dWidth :: jsnum
  dHeight :: jsnum

text \<open>
  One composited frame: its number (the value of \<open>frame\<close>), the visual index resolved for it, the image drawn over
  the black background (if any), and the caption text with its opacity (if any). Line
  breaking and the boxes behind the lines depend on the browser's text measurement and are
  not part of the model.
\<close>

record composited =
  cf_frame :: jsnum
  cf_visualIndex :: jsnum
  cf_drawn :: "drawImage_call option"
  cf_caption :: jsstring
  cf_alpha :: "jsnum option"

text \<open>The constants of a started run.\<close>

record run_config =
  totalFrames :: jsnum
  slideDuration :: jsnum
  mediaElements :: "media list"
  captions :: "Caption list"

text \<open>
  The mutable state of a run: the loop's variables, whether the interval is still set, the
  recorder with its chunks, the promise returned to the caller, which media elements are
  playing, and the frames composited so far.
\<close>

record run_state =
  frame :: jsnum
  currentVisualIndex :: jsnum
  lastCaptionText :: jsstring
  captionFadeInFrames :: nat
  renderInterval :: bool
  recorder :: recorder_state
  chunks :: "blob list"
  result :: promise
  playing :: "bool list"
  audioContextClosed :: bool
  canvas :: "composited list"

definition FADE_DURATION_FRAMES :: nat where
  "FADE_DURATION_FRAMES = 15"

definition canvas_width :: jsnum where
  "canvas_width = Fin 1280"

definition canvas_height :: jsnum where
  "canvas_height = Fin 720"

subsection \<open>The promise\<close>

text \<open>Only the first \<open>resolve\<close> or \<open>reject\<close> settles a promise.\<close>

definition resolve :: "blob \<Rightarrow> run_state \<Rightarrow> run_state" where
  "resolve b s = (if result s = Pending then s\<lparr>result := Fulfilled b\<rparr> else s)"

definition reject :: "error \<Rightarrow> run_state \<Rightarrow> run_state" where
  "reject e s = (if result s = Pending then s\<lparr>result := Rejected e\<rparr> else s)"

subsection \<open>The active visual\<close>

text \<open>
  \<open>Math.min(Math.floor(currentTime / slideDuration), mediaElements.length - 1)\<close> with
  \<open>slideDuration = duration / visuals.length\<close>.
\<close>

definition slideDuration_of :: "jsnum \<Rightarrow> nat \<Rightarrow> jsnum" where
  "slideDuration_of duration n = js_div duration (Fin (real n))"

definition activeVisualIndex :: "jsnum \<Rightarrow> jsnum \<Rightarrow> nat \<Rightarrow> jsnum" where
  "activeVisualIndex currentTime slideDur n =
     js_min (js_floor (js_div currentTime slideDur)) (js_sub (Fin (real n)) (Fin 1))"

text \<open>
  \<open>xs[v]\<close> for a number \<open>v\<close>: the element when \<open>v\<close> is an integer within range,
  \<open>undefined\<close> otherwise.
\<close>

definition array_index :: "nat \<Rightarrow> jsnum \<Rightarrow> nat option" where
  "array_index len v =
     (case v of
        Fin x \<Rightarrow> if of_int \<lfloor>x\<rfloor> = x \<and> 0 \<le> x \<and> x < real len then Some (nat \<lfloor>x\<rfloor>) else None
      | _ \<Rightarrow> None)"

definition js_index :: "'a list \<Rightarrow> jsnum \<Rightarrow> 'a option" where
  "js_index xs v = map_option (\<lambda>i. xs ! i) (array_index (length xs) v)"

definition is_video :: "media \<Rightarrow> bool" where
  "is_video m = (case m of HTMLVideoElement w h \<Rightarrow> True | HTMLImageElement w h \<Rightarrow> False)"

definition mediaWidth :: "media \<Rightarrow> nat" where
  "mediaWidth m = (case m of HTMLVideoElement w h \<Rightarrow> w | HTMLImageElement w h \<Rightarrow> w)"

definition mediaHeight :: "media \<Rightarrow> nat" where
  "mediaHeight m = (case m of HTMLVideoElement w h \<Rightarrow> h | HTMLImageElement w h \<Rightarrow> h)"

text \<open>
  \<open>pause\<close> or \<open>play\<close> of the element at an index, when there is one and it is a video.
  (The rewinding \<open>currentTime = 0\<close> of the paused clip is not tracked.)
\<close>

definition set_playing :: "media list \<Rightarrow> jsnum \<Rightarrow> bool \<Rightarrow> bool list \<Rightarrow> bool list" where
  "set_playing ms v p ps =
     (case array_index (length ms) v of
        Some i \<Rightarrow> if is_video (ms ! i) then ps[i := p] else ps
      | None \<Rightarrow> ps)"

text \<open>The cover fit of the media onto the canvas, when its width is positive.\<close>

definition cover :: "media \<Rightarrow> drawImage_call option" where
  "cover m =
     (if mediaWidth m > 0 then
        let w = Fin (real (mediaWidth m)); h = Fin (real (mediaHeight m));
            hRatio = js_div canvas_width w;
            vRatio = js_div canvas_height h;
            ratio = js_max hRatio vRatio;
            centerShift_x = js_div (js_sub canvas_width (js_mul w ratio)) (Fin 2);
            centerShift_y = js_div (js_sub canvas_height (js_mul h ratio)) (Fin 2)
        in Some \<lparr>dx = centerShift_x, dy = centerShift_y,
                  dWidth = js_mul w ratio, dHeight = js_mul h ratio\<rparr>
      else None)"


subsection \<open>One tick of the render loop\<close>

text \<open>\<open>captions.find(c => currentTime >= c.start && currentTime < c.end)?.text || ''\<close>\<close>

definition currentCaptionText_at :: "Caption list \<Rightarrow> jsnum \<Rightarrow> jsstring" where
  "currentCaptionText_at caps currentTime =
     (case find (\<lambda>c. js_ge currentTime (cap_start c) \<and> js_lt currentTime (cap_end c)) caps of
        None \<Rightarrow> []
      | Some activeCaption \<Rightarrow> cap_text activeCaption)"

text \<open>The change of the active visual: the previous clip is paused, the new one played.\<close>

definition switch_visual :: "run_config \<Rightarrow> jsnum \<Rightarrow> run_state \<Rightarrow> run_state" where
  "switch_visual cfg visualIndex s =
     (if \<not> js_strict_eq visualIndex (currentVisualIndex s) then
        s\<lparr>currentVisualIndex := visualIndex,
          playing := set_playing (mediaElements cfg) visualIndex True
                       (set_playing (mediaElements cfg) (currentVisualIndex s) False (playing s))\<rparr>
      else s)"

text \<open>The reset of the caption fade when the caption text changes.\<close>

definition caption_change :: "jsstring \<Rightarrow> run_state \<Rightarrow> run_state" where
  "caption_change currentCaptionText s =
     (if currentCaptionText \<noteq> lastCaptionText s then
        s\<lparr>captionFadeInFrames := FADE_DURATION_FRAMES, lastCaptionText := currentCaptionText\<rparr>
      else s)"

text \<open>The opacity of the caption for this frame, when there is a caption.\<close>

definition caption_alpha :: "jsstring \<Rightarrow> run_state \<Rightarrow> jsnum option" where
  "caption_alpha currentCaptionText s =
     (if currentCaptionText \<noteq> [] then
        if captionFadeInFrames s > 0 then
          let opacity = js_sub (Fin 1)
                (js_div (Fin (real (captionFadeInFrames s))) (Fin (real FADE_DURATION_FRAMES)))
          in Some (js_mul opacity opacity)
        else Some (Fin 1)
      else None)"

definition caption_fade_step :: "jsstring \<Rightarrow> run_state \<Rightarrow> run_state" where
  "caption_fade_step currentCaptionText s =
     (if currentCaptionText \<noteq> [] \<and> captionFadeInFrames s > 0
      then s\<lparr>captionFadeInFrames := captionFadeInFrames s - 1\<rparr> else s)"

text \<open>
  The callback of \<open>setInterval\<close>. A cleared interval calls it no more. Past the last frame
  it clears the interval, stops the recorder if it is recording, pauses every clip and
  closes the audio context; otherwise it composites one frame and increments \<open>frame\<close>.
\<close>

definition on_tick :: "run_config \<Rightarrow> run_state \<Rightarrow> run_state" where
  "on_tick cfg s =
     (if \<not> renderInterval s then s
      else if js_gt (frame s) (totalFrames cfg) then
        s\<lparr>renderInterval := False,
          recorder := (if recorder s = Recording then Inactive else recorder s),
          playing := map (\<lambda>p. False) (playing s), audioContextClosed := True\<rparr>
      else
        let currentTime = js_div (frame s) (Fin 30);
            visualIndex = activeVisualIndex currentTime (slideDuration cfg)
                            (length (mediaElements cfg));
            s1 = switch_visual cfg visualIndex s;
            drawn = (case js_index (mediaElements cfg) visualIndex of
                       None \<Rightarrow> None
                     | Some m \<Rightarrow> cover m);
            currentCaptionText = currentCaptionText_at (captions cfg) currentTime;
            s2 = caption_change currentCaptionText s1;
            alpha = caption_alpha currentCaptionText s2;
            s3 = caption_fade_step currentCaptionText s2
        in s3\<lparr>canvas := canvas s3 @
                  [\<lparr>cf_frame = frame s, cf_visualIndex = visualIndex, cf_drawn = drawn,
                    cf_caption = currentCaptionText, cf_alpha = alpha\<rparr>],
              frame := js_add (frame s3) (Fin 1)\<rparr>)"

subsection \<open>The recorder's handlers and the run\<close>

definition concat_blob :: "blob list \<Rightarrow> blob" where
  "concat_blob cs = concat cs"

text \<open>
  \<open>ondataavailable\<close> keeps a chunk of positive size; \<open>onstop\<close> resolves with the chunks
  put together; \<open>onerror\<close> rejects (the recorder is inactive from then on); a rejected
  \<open>audio.play()\<close> rejects.
\<close>

fun handle :: "run_config \<Rightarrow> run_state \<Rightarrow> event \<Rightarrow> run_state" where
  "handle cfg s Tick = on_tick cfg s"
| "handle cfg s (DataAvailable d) = (if length d > 0 then s\<lparr>chunks := chunks s @ [d]\<rparr> else s)"
| "handle cfg s RecorderStop = resolve (concat_blob (chunks s)) s"
| "handle cfg s RecorderError = reject RecordingError (s\<lparr>recorder := Inactive\<rparr>)"
| "handle cfg s AudioPlayRejected = reject AudioPlaybackError s"

definition render :: "run_config \<Rightarrow> event list \<Rightarrow> run_state \<Rightarrow> run_state" where
  "render cfg evs s = foldl (handle cfg) s evs"

text \<open>The state in which the interval is set: the recorder started, nothing drawn yet.\<close>

definition initial_state :: "media list \<Rightarrow> run_state" where
  "initial_state ms =
     \<lparr>frame = Fin 0, currentVisualIndex = Fin (- 1), lastCaptionText = [],
      captionFadeInFrames = 0, renderInterval = True, recorder = Recording, chunks = [],
      result = Pending, playing = map (\<lambda>m. False) ms, audioContextClosed = False,
      canvas = []\<rparr>"

subsection \<open>Loading the visuals\<close>

definition startsWith :: "jsstring \<Rightarrow> jsstring \<Rightarrow> bool" where
  "startsWith s p = (take (length p) s = p)"

text \<open>
  One visual: a video element when its address starts with \<open>data:video/\<close>, an image
  otherwise; rejected with the visual's name when the element reports an error.
\<close>

definition load_visual :: "browser \<Rightarrow> VisualAsset \<Rightarrow> error + media" where
  "load_visual b v =
     (case visual_of b (dataUrl v) of
        LoadFailed \<Rightarrow> Inl (AssetLoadError (name v))
      | Loaded w h \<Rightarrow>
          if startsWith (dataUrl v) (js ''data:video/'') then Inr (HTMLVideoElement w h)
          else Inr (HTMLImageElement w h))"

text \<open>
  \<open>Promise.all\<close> over the visuals: every element, or the rejection of a visual that failed
  (the first in the list here; the browser decides which error event comes first).
\<close>

fun load_all :: "browser \<Rightarrow> VisualAsset list \<Rightarrow> error + media list" where
  "load_all b [] = Inr []"
| "load_all b (v # vs) =
     (case load_visual b v of
        Inl e \<Rightarrow> Inl e
      | Inr m \<Rightarrow> (case load_all b vs of Inl e \<Rightarrow> Inl e | Inr ms \<Rightarrow> Inr (m # ms)))"

subsection \<open>\<open>createVideoBlob\<close>\<close>

text \<open>
  The run that \<open>onAudioLoad\<close> starts once the duration is known: its constants and its
  state after the browser's events, or the error that rejects before the interval is set.
\<close>

definition run_config_of :: "jsnum \<Rightarrow> media list \<Rightarrow> Caption list \<Rightarrow> run_config" where
  "run_config_of duration ms caps =
     \<lparr>totalFrames = js_ceil (js_mul duration (Fin 30)),
      slideDuration = slideDuration_of duration (length ms),
      mediaElements = ms, captions = caps\<rparr>"

definition onAudioLoad ::
  "browser \<Rightarrow> VisualAsset list \<Rightarrow> jsnum \<Rightarrow> Caption list \<Rightarrow> error + run_state" where
  "onAudioLoad b vs duration caps =
     (if \<not> js_isFinite duration \<or> js_strict_eq duration (Fin 0) then Inl InvalidDuration
      else case load_all b vs of
             Inl e \<Rightarrow> Inl e
           | Inr ms \<Rightarrow>
               if \<not> recorder_supported b then Inl RecordingError
               else Inr (render (run_config_of duration ms caps) (events b) (initial_state ms)))"

text \<open>
  The promise \<open>createVideoBlob\<close> returns, as the browser's events leave it: fulfilled with
  the blob, rejected, or still pending (the caller waits for ever).
\<close>

definition createVideoBlob ::
  "browser \<Rightarrow> VisualAsset list \<Rightarrow> jsstring \<Rightarrow> Caption list \<Rightarrow> promise" where
  "createVideoBlob b vs audioDataUrl' caps =
     (if \<not> context2d b then Rejected CanvasContextError
      else case audio_of b audioDataUrl' of
             AudioFailed \<Rightarrow> Rejected AudioLoadError
           | LoadedMetadata duration \<Rightarrow>
               (case onAudioLoad b vs duration caps of
                  Inl e \<Rightarrow> Rejected e
                | Inr s \<Rightarrow> result s))"


section \<open>Upload and download\<close>

subsection \<open>\<open>uploadVideo\<close>\<close>

record upload_snippet =
  snippet_title :: jsstring
  snippet_description :: jsstring
  snippet_tags :: "jsstring list"

record upload_status =
  privacyStatus :: jsstring

record upload_metadata =
  snippet :: upload_snippet
  status :: upload_status

text \<open>The options \<open>uploadVideo\<close> constructs the \<open>MediaUploader\<close> with.\<close>

record MediaUploader =
  baseUrl :: jsstring
  media_file :: blob
  token :: jsstring
  metadata :: upload_metadata
  params_part :: jsstring

definition upload_request :: "blob \<Rightarrow> VideoDetails \<Rightarrow> jsstring \<Rightarrow> MediaUploader" where
  "upload_request videoBlob details tok =
     \<lparr>baseUrl = js ''https://www.googleapis.com/upload/youtube/v3/videos'',
      media_file = videoBlob,
      token = tok,
      metadata =
        \<lparr>snippet = \<lparr>snippet_title = title details,
                     snippet_description = description details,
                     snippet_tags = tags details\<rparr>,
         status = \<lparr>privacyStatus = js ''private''\<rparr>\<rparr>,
      params_part = js ''snippet,status''\<rparr>"

text \<open>
  The promise of \<open>uploadVideo\<close>: rejected when no token is set (the read of
  \<open>access_token\<close> throws in the executor), when the library reports an error, or when the
  response has no id (an empty id counts as none); resolved with the id otherwise. A
  handler that throws settles nothing: the promise stays pending (\<open>None\<close>).
\<close>

definition uploadVideo :: "browser \<Rightarrow> blob \<Rightarrow> VideoDetails \<Rightarrow> (error + jsstring) option" where
  "uploadVideo b videoBlob details =
     (case access_token b of
        None \<Rightarrow> Some (Inl UploadFailed)
      | Some tok \<Rightarrow>
          (case upload_outcome_of b (media_file (upload_request videoBlob details tok)) of
             OnError \<Rightarrow> Some (Inl UploadFailed)
           | OnErrorMalformed \<Rightarrow> None
           | OnCompleteMalformed \<Rightarrow> None
           | OnComplete None \<Rightarrow> Some (Inl UploadFailed)
           | OnComplete (Some videoId) \<Rightarrow>
               if videoId = [] then Some (Inl UploadFailed) else Some (Inr videoId)))"

subsection \<open>\<open>handleUpload\<close>, \<open>handleDownload\<close> and the preview\<close>

text \<open>
  Both handlers refuse to start without an audio address (\<open>null\<close> or empty) or without a
  visual, with the message "Both audio and at least one visual are required to create a
  video." (\<open>NoVisuals\<close> here). Any rejection inside the \<open>try\<close> block ends the handler with
  that error. \<open>None\<close>: a promise the handler awaits never settles.
\<close>

definition synthesize :: "browser \<Rightarrow> VideoDetails \<Rightarrow> (error + blob) option" where
  "synthesize b details =
     (case audioDataUrl details of
        None \<Rightarrow> Some (Inl NoVisuals)
      | Some url \<Rightarrow>
          if url = [] \<or> length (visuals details) = 0 then Some (Inl NoVisuals)
          else (case generateCaptions (script details) (audio_of b url) of
                  Inl e \<Rightarrow> Some (Inl e)
                | Inr generatedCaptions \<Rightarrow>
                    (case createVideoBlob b (visuals details) url generatedCaptions of
                       Pending \<Rightarrow> None
                     | Rejected e \<Rightarrow> Some (Inl e)
                     | Fulfilled blob \<Rightarrow> Some (Inr blob))))"

definition handleUpload :: "browser \<Rightarrow> VideoDetails \<Rightarrow> (error + jsstring) option" where
  "handleUpload b details =
     (case synthesize b details of
        None \<Rightarrow> None
      | Some (Inl e) \<Rightarrow> Some (Inl e)
      | Some (Inr blob) \<Rightarrow> uploadVideo b blob details)"

definition handleDownload :: "browser \<Rightarrow> VideoDetails \<Rightarrow> (error + blob) option" where
  "handleDownload b details = synthesize b details"

text \<open>
  The preview's effect: the captions and the caption shown, from their initial values
  (no caption, empty text). A failure of \<open>generateCaptions\<close> shows the title instead.
\<close>

definition preview_captions :: "browser \<Rightarrow> VideoDetails \<Rightarrow> Caption list \<times> jsstring" where
  "preview_captions b details =
     (case audioDataUrl details of
        None \<Rightarrow> ([], [])
      | Some url \<Rightarrow>
          if url = [] \<or> script details = [] then ([], [])
          else (case generateCaptions (script details) (audio_of b url) of
                  Inl e \<Rightarrow> ([], title details)
                | Inr caps \<Rightarrow> (caps, [])))"


section \<open>Example inputs\<close>

definition example_script :: jsstring where
  "example_script = js ''Intro:'' @ [0x0A, dquote] @ js ''Hello world. This is a test.'' @ [dquote]"

text \<open>
  A browser in which the audio reports the given duration, every visual loads with the
  given outcome, and the run receives the given events.
\<close>

definition example_browser :: "jsnum \<Rightarrow> load_outcome \<Rightarrow> event list \<Rightarrow> browser" where
  "example_browser duration outcome evs =
     \<lparr>context2d = True,
      audio_of = (\<lambda>url. LoadedMetadata duration),
      visual_of = (\<lambda>url. outcome),
      recorder_supported = True,
      events = evs,
      access_token = Some (js ''token''),
      upload_outcome_of = (\<lambda>b. OnComplete (Some (js ''id'')))\<rparr>"

definition example_image :: VisualAsset where
  "example_image = \<lparr>name = js ''slide.png'', dataUrl = js ''data:image/png;base64,iVBOR''\<rparr>"

definition example_clip :: VisualAsset where
  "example_clip = \<lparr>name = js ''clip.webm'', dataUrl = js ''data:video/webm;base64,GkXf''\<rparr>"

definition example_details :: "VisualAsset list \<Rightarrow> VideoDetails" where
  "example_details vs =
     \<lparr>title = js ''Title'', description = js ''About'', tags = [js ''tag''],
      visuals = vs, voice = js ''Kore'', audioDataUrl = Some (js ''data:audio/wav;base64,UklG''),
      script = example_script, youtubeVideoId = None\<rparr>"

text \<open>A duration of \<open>2^-1070\<close> seconds, a (subnormal) binary64 value.\<close>

definition tiny_duration :: real where
  "tiny_duration = 1 / 2 ^ 1070"

text \<open>The number of ticks among the events.\<close>

definition ticks :: "event list \<Rightarrow> nat" where
  "ticks evs = length (filter (\<lambda>e. e = Tick) evs)"


section \<open>Properties of binary64 rounding\<close>

lemma rne_of_int [simp]: "rne (of_int k) = k"
  by (simp add: rne_def)

lemma rne_bounds: "\<lfloor>z\<rfloor> \<le> rne z" "rne z \<le> \<lfloor>z\<rfloor> + 1"
  by (simp_all add: rne_def Let_def)

lemma rne_mono:
  assumes "z \<le> z'"
  shows "rne z \<le> rne z'"
proof (cases "\<lfloor>z\<rfloor> = \<lfloor>z'\<rfloor>")
  case True
  then have "z - of_int \<lfloor>z\<rfloor> \<le> z' - of_int \<lfloor>z'\<rfloor>" using assms by simp
  then show ?thesis using True by (auto simp: rne_def Let_def)
next
  case False
  then have "\<lfloor>z\<rfloor> < \<lfloor>z'\<rfloor>" using floor_mono[OF assms] by simp
  then have "rne z \<le> \<lfloor>z'\<rfloor>" using rne_bounds(2)[of z] by simp
  then show ?thesis using rne_bounds(1)[of z'] by simp
qed

lemma rne_le: "z \<le> of_int k \<Longrightarrow> rne z \<le> k"
  using rne_mono[of z "of_int k"] by simp

lemma rne_ge: "of_int k \<le> z \<Longrightarrow> k \<le> rne z"
  using rne_mono[of "of_int k" z] by simp

lemma rne_error: "\<bar>of_int (rne z) - z\<bar> \<le> 1 / 2"
  by (auto simp: rne_def Let_def abs_if) linarith+

lemma expo_bounds:
  assumes "0 < x"
  shows "2 powi (expo x) \<le> x" and "x < 2 powi (expo x + 1)"
proof -
  show "2 powi (expo x) \<le> x"
  proof (cases "1 \<le> x")
    case True
    then have n: "0 < \<lfloor>x\<rfloor>" by simp
    then have b: "1 \<le> bitlen \<lfloor>x\<rfloor>" by (auto simp: bitlen_alt_def)
    have "(2::int) ^ nat (bitlen \<lfloor>x\<rfloor> - 1) \<le> \<lfloor>x\<rfloor>" using bitlen_bounds[OF n] by simp
    then have "real_of_int (2 ^ nat (bitlen \<lfloor>x\<rfloor> - 1)) \<le> of_int \<lfloor>x\<rfloor>"
      by (simp only: of_int_le_iff)
    also have "\<dots> \<le> x" by simp
    finally show ?thesis using True b by (simp add: expo_def power_int_nonneg_exp)
  next
    case False
    then have y: "1 < 1 / x" using assms by simp
    then have N: "0 < \<lceil>1 / x\<rceil> - 1" by (simp add: less_ceiling_iff)
    have "\<lceil>1 / x\<rceil> - 1 < 2 ^ nat (bitlen (\<lceil>1 / x\<rceil> - 1))" using bitlen_bounds[OF N] by simp
    then have "\<lceil>1 / x\<rceil> \<le> 2 ^ nat (bitlen (\<lceil>1 / x\<rceil> - 1))" by simp
    then have "real_of_int \<lceil>1 / x\<rceil> \<le> of_int (2 ^ nat (bitlen (\<lceil>1 / x\<rceil> - 1)))"
      by (simp only: of_int_le_iff)
    then have "1 / x \<le> real_of_int (2 ^ nat (bitlen (\<lceil>1 / x\<rceil> - 1)))"
      using le_of_int_ceiling[of "1 / x"] by linarith
    then have "1 / x \<le> 2 ^ nat (bitlen (\<lceil>1 / x\<rceil> - 1))"
      by simp
    then have "1 / 2 ^ nat (bitlen (\<lceil>1 / x\<rceil> - 1)) \<le> x"
      using assms by (simp add: field_simps)
    then show ?thesis
      using False bitlen_nonneg[of "\<lceil>1 / x\<rceil> - 1"]
      by (simp add: expo_def power_int_minus_divide power_int_nonneg_exp)
  qed
  show "x < 2 powi (expo x + 1)"
  proof (cases "1 \<le> x")
    case True
    then have n: "0 < \<lfloor>x\<rfloor>" by simp
    then have b: "1 \<le> bitlen \<lfloor>x\<rfloor>" by (auto simp: bitlen_alt_def)
    have "\<lfloor>x\<rfloor> < 2 ^ nat (bitlen \<lfloor>x\<rfloor>)" using bitlen_bounds[OF n] by simp
    then have "\<lfloor>x\<rfloor> + 1 \<le> 2 ^ nat (bitlen \<lfloor>x\<rfloor>)" by simp
    then have "real_of_int (\<lfloor>x\<rfloor> + 1) \<le> of_int (2 ^ nat (bitlen \<lfloor>x\<rfloor>))"
      by (simp only: of_int_le_iff)
    moreover have "x < real_of_int (\<lfloor>x\<rfloor> + 1)" by linarith
    ultimately have "x < real_of_int (2 ^ nat (bitlen \<lfloor>x\<rfloor>))" by linarith
    then have "x < 2 ^ nat (bitlen \<lfloor>x\<rfloor>)" by simp
    then show ?thesis using True b by (simp add: expo_def power_int_nonneg_exp)
  next
    case False
    then have y: "1 < 1 / x" using assms by simp
    then have N: "0 < \<lceil>1 / x\<rceil> - 1" by (simp add: less_ceiling_iff)
    then have c: "1 \<le> bitlen (\<lceil>1 / x\<rceil> - 1)" by (auto simp: bitlen_alt_def)
    have "(2::int) ^ nat (bitlen (\<lceil>1 / x\<rceil> - 1) - 1) \<le> \<lceil>1 / x\<rceil> - 1"
      using bitlen_bounds[OF N] by simp
    then have "real_of_int (2 ^ nat (bitlen (\<lceil>1 / x\<rceil> - 1) - 1)) \<le> of_int (\<lceil>1 / x\<rceil> - 1)"
      by (simp only: of_int_le_iff)
    moreover have "real_of_int (\<lceil>1 / x\<rceil> - 1) < 1 / x" by linarith
    ultimately have "real_of_int (2 ^ nat (bitlen (\<lceil>1 / x\<rceil> - 1) - 1)) < 1 / x" by linarith
    then have "2 ^ nat (bitlen (\<lceil>1 / x\<rceil> - 1) - 1) < 1 / x" by simp
    then have "x < 1 / 2 ^ nat (bitlen (\<lceil>1 / x\<rceil> - 1) - 1)"
      using assms by (simp add: field_simps)
    moreover have "- bitlen (\<lceil>1 / x\<rceil> - 1) + 1 = - (bitlen (\<lceil>1 / x\<rceil> - 1) - 1)" by simp
    ultimately show ?thesis
      using False c
      by (simp only: expo_def if_False power_int_minus_divide power_int_nonneg_exp)
  qed
qed

lemma expo_unique:
  assumes "0 < x" and "2 powi k \<le> x" and "x < 2 powi (k + 1)"
  shows "expo x = k"
proof (rule antisym)
  show "expo x \<le> k"
  proof (rule ccontr)
    assume "\<not> expo x \<le> k"
    then have "k + 1 \<le> expo x" by simp
    then have "(2::real) powi (k + 1) \<le> 2 powi (expo x)" by (intro power_int_increasing) simp_all
    then show False using expo_bounds(1)[OF assms(1)] assms(3) by linarith
  qed
  show "k \<le> expo x"
  proof (rule ccontr)
    assume "\<not> k \<le> expo x"
    then have "expo x + 1 \<le> k" by simp
    then have "(2::real) powi (expo x + 1) \<le> 2 powi k" by (intro power_int_increasing) simp_all
    then show False using expo_bounds(2)[OF assms(1)] assms(2) by linarith
  qed
qed

lemma expo_mono:
  assumes "0 < x" and "x \<le> y"
  shows "expo x \<le> expo y"
proof (rule ccontr)
  assume "\<not> expo x \<le> expo y"
  then have "expo y + 1 \<le> expo x" by simp
  then have "(2::real) powi (expo y + 1) \<le> 2 powi (expo x)" by (intro power_int_increasing) simp_all
  moreover have "0 < y" using assms by simp
  ultimately show False
    using expo_bounds(1)[OF assms(1)] expo_bounds(2)[OF \<open>0 < y\<close>] assms(2) by linarith
qed


lemma quantum_pos: "0 < quantum a"
  by (simp add: quantum_def)

lemma round_mag_zero [simp]: "round_mag 0 = 0"
  using rne_of_int[of 0] by (simp add: round_mag_def)

lemma round_mag_nonneg: "0 \<le> a \<Longrightarrow> 0 \<le> round_mag a"
proof -
  assume "0 \<le> a"
  then have "of_int 0 \<le> a / quantum a" using quantum_pos[of a] by simp
  then have "0 \<le> rne (a / quantum a)" by (rule rne_ge)
  then show ?thesis using quantum_pos[of a] by (simp add: round_mag_def)
qed

lemma quantum_times: "2 ^ 53 * quantum a = 2 powi (max (expo a) (- 1022) + 1)"
proof -
  have "(2::real) ^ 53 = 2 powi 53" by simp
  then have "2 ^ 53 * quantum a = 2 powi 53 * 2 powi (max (expo a) (- 1022) - 52)"
    by (simp only: quantum_def)
  also have "\<dots> = 2 powi (53 + (max (expo a) (- 1022) - 52))"
    by (subst power_int_add) simp_all
  also have "53 + (max (expo a) (- 1022) - 52) = max (expo a) (- 1022) + 1" by simp
  finally show ?thesis .
qed

lemma quantum_times': "2 ^ 52 * quantum a = 2 powi (max (expo a) (- 1022))"
proof -
  have "(2::real) ^ 52 = 2 powi 52" by simp
  then have "2 ^ 52 * quantum a = 2 powi 52 * 2 powi (max (expo a) (- 1022) - 52)"
    by (simp only: quantum_def)
  also have "\<dots> = 2 powi (52 + (max (expo a) (- 1022) - 52))"
    by (subst power_int_add) simp_all
  also have "52 + (max (expo a) (- 1022) - 52) = max (expo a) (- 1022)" by simp
  finally show ?thesis .
qed

lemma round_mag_upper:
  assumes "0 < a"
  shows "round_mag a \<le> 2 powi (max (expo a) (- 1022) + 1)"
proof -
  have "a < 2 powi (expo a + 1)" by (rule expo_bounds(2)[OF assms])
  also have "\<dots> \<le> 2 powi (max (expo a) (- 1022) + 1)"
    by (intro power_int_increasing) simp_all
  also have "\<dots> = 2 ^ 53 * quantum a" by (rule quantum_times[symmetric])
  finally have "a / quantum a \<le> 2 ^ 53"
    using quantum_pos[of a] by (simp add: pos_divide_le_eq)
  then have "a / quantum a \<le> of_int (2 ^ 53)" by simp
  then have "rne (a / quantum a) \<le> 2 ^ 53" by (rule rne_le)
  then have "real_of_int (rne (a / quantum a)) \<le> 2 ^ 53"
    by (metis of_int_le_iff of_int_numeral of_int_power)
  then have "round_mag a \<le> 2 ^ 53 * quantum a"
    unfolding round_mag_def using quantum_pos[of a] by (intro mult_right_mono) simp_all
  then show ?thesis by (simp only: quantum_times)
qed

lemma round_mag_lower:
  assumes "0 < a" and "- 1022 \<le> expo a"
  shows "2 powi (expo a) \<le> round_mag a"
proof -
  have m: "max (expo a) (- 1022) = expo a" using assms(2) by simp
  have "2 ^ 52 * quantum a = 2 powi (expo a)" using quantum_times'[of a] by (simp only: m)
  also have "\<dots> \<le> a" by (rule expo_bounds(1)[OF assms(1)])
  finally have "2 ^ 52 \<le> a / quantum a"
    using quantum_pos[of a] by (simp add: pos_le_divide_eq)
  then have "of_int (2 ^ 52) \<le> a / quantum a" by simp
  then have "2 ^ 52 \<le> rne (a / quantum a)" by (rule rne_ge)
  then have "2 ^ 52 \<le> real_of_int (rne (a / quantum a))"
    by (metis of_int_le_iff of_int_numeral of_int_power)
  then have "2 ^ 52 * quantum a \<le> round_mag a"
    unfolding round_mag_def using quantum_pos[of a] by (intro mult_right_mono) simp_all
  then show ?thesis using quantum_times'[of a] by (simp only: m)
qed

lemma round_mag_mono:
  assumes "0 < a" and "a \<le> b"
  shows "round_mag a \<le> round_mag b"
proof -
  have b: "0 < b" using assms by simp
  have e: "max (expo a) (- 1022) \<le> max (expo b) (- 1022)"
    using expo_mono[OF assms] by simp
  show ?thesis
  proof (cases "max (expo a) (- 1022) = max (expo b) (- 1022)")
    case True
    then have q: "quantum a = quantum b" by (simp add: quantum_def)
    have "a / quantum b \<le> b / quantum b"
      using assms(2) quantum_pos[of b] by (simp add: divide_right_mono)
    then have "rne (a / quantum b) \<le> rne (b / quantum b)" by (rule rne_mono)
    then have "real_of_int (rne (a / quantum b)) \<le> real_of_int (rne (b / quantum b))" by simp
    then show ?thesis
      unfolding round_mag_def q using quantum_pos[of b] by (intro mult_right_mono) simp_all
  next
    case False
    then have lt: "max (expo a) (- 1022) + 1 \<le> max (expo b) (- 1022)" using e by simp
    then have nb: "- 1022 \<le> expo b" and mb: "max (expo b) (- 1022) = expo b" by auto
    have "round_mag a \<le> 2 powi (max (expo a) (- 1022) + 1)" by (rule round_mag_upper[OF assms(1)])
    also have "\<dots> \<le> 2 powi (expo b)"
      using lt unfolding mb by (intro power_int_increasing) simp_all
    also have "\<dots> \<le> round_mag b" by (rule round_mag_lower[OF b nb])
    finally show ?thesis .
  qed
qed

lemma round_mag_exact:
  assumes "a / quantum a = of_int m"
  shows "round_mag a = a"
proof -
  have "round_mag a = a / quantum a * quantum a"
    unfolding round_mag_def assms by simp
  then show ?thesis using quantum_pos[of a] by simp
qed

lemma round_mag_error:
  assumes "0 < a" and "- 1022 \<le> expo a"
  shows "\<bar>round_mag a - a\<bar> \<le> a / 2 ^ 53"
proof -
  have m: "max (expo a) (- 1022) = expo a" using assms(2) by simp
  have "round_mag a - a = (of_int (rne (a / quantum a)) - a / quantum a) * quantum a"
    using quantum_pos[of a] by (simp add: round_mag_def left_diff_distrib)
  then have "\<bar>round_mag a - a\<bar> = \<bar>of_int (rne (a / quantum a)) - a / quantum a\<bar> * quantum a"
    using quantum_pos[of a] by (simp add: abs_mult)
  also have "\<dots> \<le> 1 / 2 * quantum a"
    using rne_error[of "a / quantum a"] quantum_pos[of a] by (intro mult_right_mono) simp_all
  also have "\<dots> = (2 ^ 52 * quantum a) / 2 ^ 53" by simp
  also have "\<dots> = 2 powi (expo a) / 2 ^ 53" using quantum_times'[of a] by (simp only: m)
  also have "\<dots> \<le> a / 2 ^ 53"
    using expo_bounds(1)[OF assms(1)] by (simp add: divide_right_mono)
  finally show ?thesis .
qed


lemma round_mag_int:
  assumes "0 \<le> k" and "k \<le> 2 ^ 53"
  shows "round_mag (of_int k) = of_int k"
proof (cases "k = 0")
  case True
  then show ?thesis by simp
next
  case False
  then have pos: "0 < real_of_int k" using assms(1) by simp
  have one: "1 \<le> real_of_int k" using False assms(1) by simp
  have e0: "0 \<le> expo (of_int k)"
  proof (rule ccontr)
    assume "\<not> 0 \<le> expo (real_of_int k)"
    then have "expo (real_of_int k) + 1 \<le> 0" by simp
    then have "(2::real) powi (expo (real_of_int k) + 1) \<le> 2 powi 0"
      by (intro power_int_increasing) simp_all
    then show False using expo_bounds(2)[OF pos] one by simp
  qed
  then have m: "max (expo (real_of_int k)) (- 1022) = expo (real_of_int k)" by simp
  show ?thesis
  proof (cases "expo (real_of_int k) \<le> 52")
    case True
    define j where "j = nat (52 - expo (real_of_int k))"
    have "quantum (real_of_int k) = 2 powi (- int j)"
      using True by (simp add: quantum_def m j_def)
    also have "\<dots> = 1 / 2 ^ j" by (simp add: power_int_minus_divide)
    finally have "real_of_int k / quantum (real_of_int k) = of_int (k * 2 ^ j)" by simp
    then show ?thesis by (rule round_mag_exact)
  next
    case False
    then have "53 \<le> expo (real_of_int k)" by simp
    then have "(2::real) powi 53 \<le> 2 powi (expo (real_of_int k))"
      by (intro power_int_increasing) simp_all
    then have "2 ^ 53 \<le> real_of_int k" using expo_bounds(1)[OF pos] by simp
    then have "real_of_int (2 ^ 53) \<le> real_of_int k" by simp
    then have "2 ^ 53 \<le> k" by (simp only: of_int_le_iff)
    then have k: "k = 2 ^ 53" using assms(2) by simp
    have "(2::real) powi 53 \<le> real_of_int k" "real_of_int k < 2 powi (53 + 1)"
      by (simp_all add: k)
    then have "expo (real_of_int k) = 53" by (intro expo_unique[OF pos])
    then have "quantum (real_of_int k) = 2" by (simp add: quantum_def)
    then have "real_of_int k / quantum (real_of_int k) = of_int (2 ^ 52)" by (simp add: k)
    then show ?thesis by (rule round_mag_exact)
  qed
qed

lemma round_mag_idem:
  assumes "0 < a"
  shows "round_mag (round_mag a) = round_mag a"
proof -
  define e where "e = max (expo a) (- 1022)"
  define m where "m = rne (a / quantum a)"
  define r where "r = round_mag a"
  have u: "quantum a = 2 powi (e - 52)" by (simp add: quantum_def e_def)
  have r: "r = of_int m * quantum a" by (simp add: r_def round_mag_def m_def)
  have e_min: "- 1022 \<le> e" by (simp add: e_def)
  have up: "r \<le> 2 powi (e + 1)" unfolding r_def e_def by (rule round_mag_upper[OF assms])
  have t53: "2 ^ 53 * quantum a = 2 powi (e + 1)" unfolding e_def by (rule quantum_times)
  have t52: "2 ^ 52 * quantum a = 2 powi e" unfolding e_def by (rule quantum_times')
  have m0: "0 \<le> m"
    unfolding m_def using assms quantum_pos[of a] by (intro rne_ge) simp
  show ?thesis
  proof (cases "m = 0")
    case True
    then show ?thesis using r by (simp add: r_def[symmetric])
  next
    case False
    then have mpos: "0 < m" using m0 by simp
    then have rpos: "0 < r" using quantum_pos[of a] by (simp add: r)
    consider (sub) "real_of_int m < 2 ^ 52" | (norm) "2 ^ 52 \<le> real_of_int m" "real_of_int m < 2 ^ 53"
      | (top) "2 ^ 53 \<le> real_of_int m" by linarith
    then have "\<exists>j. r / quantum r = of_int j"
    proof cases
      case sub
      have "\<not> - 1022 \<le> expo a"
      proof
        assume n: "- 1022 \<le> expo a"
        then have "e = expo a" by (simp add: e_def)
        then have "2 powi e \<le> r" unfolding r_def using round_mag_lower[OF assms n] by simp
        then have "2 ^ 52 * quantum a \<le> of_int m * quantum a" by (simp only: t52 r)
        then have "2 ^ 52 \<le> real_of_int m" using quantum_pos[of a] by simp
        then show False using sub by simp
      qed
      then have e: "e = - 1022" by (simp add: e_def)
      have "r < 2 ^ 52 * quantum a" unfolding r using sub quantum_pos[of a] by simp
      then have lt: "r < 2 powi (- 1022)" by (simp only: t52 e)
      have "expo r < - 1022"
      proof (rule ccontr)
        assume "\<not> expo r < - 1022"
        then have "- 1022 \<le> expo r" by simp
        then have "(2::real) powi (- 1022) \<le> 2 powi (expo r)"
          by (intro power_int_increasing) simp_all
        then show False using expo_bounds(1)[OF rpos] lt by linarith
      qed
      then have "max (expo r) (- 1022) = max (expo a) (- 1022)"
        using e by (simp add: e_def)
      then have "quantum r = quantum a" by (simp only: quantum_def)
      then have "r / quantum r = of_int m" using quantum_pos[of a] by (simp add: r)
      then show ?thesis by blast
    next
      case norm
      have "2 ^ 52 * quantum a \<le> r" "r < 2 ^ 53 * quantum a"
        unfolding r using norm quantum_pos[of a] by simp_all
      then have "2 powi e \<le> r" "r < 2 powi (e + 1)" by (simp_all only: t52 t53)
      then have "expo r = e" by (intro expo_unique[OF rpos])
      then have "max (expo r) (- 1022) = max (expo a) (- 1022)"
        using e_min by (simp add: e_def)
      then have "quantum r = quantum a" by (simp only: quantum_def)
      then have "r / quantum r = of_int m" using quantum_pos[of a] by (simp add: r)
      then show ?thesis by blast
    next
      case top
      then have "2 ^ 53 * quantum a \<le> r" unfolding r using quantum_pos[of a] by simp
      then have req: "r = 2 powi (e + 1)" using up by (simp only: t53)
      have "(2::real) powi (e + 1) < 2 powi (e + 1 + 1)"
        by (intro power_int_strict_increasing) simp_all
      then have "expo r = e + 1" using req by (intro expo_unique[OF rpos]) simp_all
      then have "max (expo r) (- 1022) = e + 1" using e_min by simp
      then have "quantum r = 2 powi (e + 1 - 52)" by (simp only: quantum_def)
      moreover have "2 ^ 52 * (2::real) powi (e + 1 - 52) = 2 powi (e + 1)"
      proof -
        have "(2::real) ^ 52 = 2 powi 52" by simp
        then have "2 ^ 52 * (2::real) powi (e + 1 - 52) = 2 powi 52 * 2 powi (e + 1 - 52)"
          by (simp only:)
        also have "\<dots> = 2 powi (52 + (e + 1 - 52))" by (subst power_int_add) simp_all
        also have "52 + (e + 1 - 52) = e + 1" by simp
        finally show ?thesis .
      qed
      ultimately have "r = 2 ^ 52 * quantum r" using req by simp
      moreover define q where "q = quantum r"
      ultimately have "r = 2 ^ 52 * q" "0 < q" using quantum_pos[of r] by simp_all
      then have "r / q = of_int (2 ^ 52)" by simp
      then show ?thesis unfolding q_def by blast
    qed
    then obtain j where "r / quantum r = of_int j" ..
    then have "round_mag r = r" by (rule round_mag_exact)
    then show ?thesis by (simp add: r_def)
  qed
qed


lemma round64_neg: "round64 (- x) = js_neg (round64 x)"
  by (simp add: round64_def)

lemma round64_pos:
  assumes "0 < x"
  shows "round64 x = (if 2 ^ 1024 \<le> round_mag x then PosInf else Fin (round_mag x))"
  using assms by (simp add: round64_def)

lemma round64_nonneg:
  assumes "0 \<le> x"
  shows "nonneg (round64 x)"
proof (cases "x = 0")
  case True
  then show ?thesis by (simp add: round64_def nonneg_def)
next
  case False
  then have "0 < x" using assms by simp
  then show ?thesis
    using round_mag_nonneg[OF assms] by (simp add: round64_pos nonneg_def)
qed

lemma round64_mono:
  assumes "0 \<le> x" and "x \<le> y"
  shows "js_le (round64 x) (round64 y)"
proof (cases "x = 0")
  case True
  have "nonneg (round64 y)" using assms by (intro round64_nonneg) simp
  then show ?thesis
    using True by (cases "round64 y") (simp_all add: round64_def nonneg_def js_le_def js_ge_def)
next
  case False
  then have x: "0 < x" and y: "0 < y" using assms by simp_all
  have "round_mag x \<le> round_mag y" by (rule round_mag_mono[OF x assms(2)])
  then show ?thesis
    using x y by (simp add: round64_pos js_le_def js_ge_def)
qed

lemma round64_fixed:
  assumes "round64 x = Fin y"
  shows "round64 y = Fin y"
proof (cases "x = 0")
  case True
  then show ?thesis using assms by (simp add: round64_def)
next
  case False
  then have a: "0 < \<bar>x\<bar>" by simp
  have small: "\<not> 2 ^ 1024 \<le> round_mag \<bar>x\<bar>"
    using assms False by (auto simp: round64_def split: if_splits)
  have y: "\<bar>y\<bar> = round_mag \<bar>x\<bar>"
    using assms False round_mag_nonneg[of "\<bar>x\<bar>"] by (auto simp: round64_def split: if_splits)
  have sgn: "0 < y \<longleftrightarrow> 0 < x" if "y \<noteq> 0"
    using assms False that round_mag_nonneg[of "\<bar>x\<bar>"]
    by (auto simp: round64_def split: if_splits)
  show ?thesis
  proof (cases "y = 0")
    case True
    then show ?thesis by (simp add: round64_def)
  next
    case ny: False
    have idem: "round_mag \<bar>y\<bar> = \<bar>y\<bar>" unfolding y by (rule round_mag_idem[OF a])
    show ?thesis
      using ny small idem y by (auto simp: round64_def)
  qed
qed

lemma round64_double: "round64 x = Fin y \<Longrightarrow> is_double y"
  by (simp add: is_double_def round64_fixed)

lemma round64_nat:
  assumes "n \<le> 2 ^ 53"
  shows "round64 (real n) = Fin (real n)"
proof (cases "n = 0")
  case True
  then show ?thesis by (simp add: round64_def)
next
  case False
  have "int n \<le> 2 ^ 53" using assms by (metis of_nat_le_iff of_nat_numeral of_nat_power)
  then have "round_mag (of_int (int n)) = of_int (int n)" by (intro round_mag_int) simp_all
  then have r: "round_mag (real n) = real n" by simp
  have "real n \<le> 2 ^ 53" using assms by (metis of_nat_le_iff of_nat_numeral of_nat_power)
  then have "real n < 2 ^ 1024" by simp
  then show ?thesis using False r by (simp add: round64_def)
qed

lemma round64_overflow:
  assumes "2 ^ 1024 \<le> x"
  shows "round64 x = PosInf"
proof -
  have x: "0 < x" using assms by (meson less_le_trans zero_less_numeral zero_less_power)
  have "(2::real) powi 1024 \<le> x" using assms by simp
  have e: "1024 \<le> expo x"
  proof (rule ccontr)
    assume "\<not> 1024 \<le> expo x"
    then have "expo x + 1 \<le> 1024" by simp
    then have "(2::real) powi (expo x + 1) \<le> 2 powi 1024"
      by (intro power_int_increasing) simp_all
    then show False using expo_bounds(2)[OF x] \<open>2 powi 1024 \<le> x\<close> by linarith
  qed
  then have "(2::real) powi 1024 \<le> 2 powi (expo x)" by (intro power_int_increasing) simp_all
  also have "\<dots> \<le> round_mag x" using e by (intro round_mag_lower[OF x]) simp
  finally have "2 ^ 1024 \<le> round_mag x" by simp
  then show ?thesis using x by (simp add: round64_pos)
qed


section \<open>Properties of the caption estimator\<close>

















lemmas round64_eval = round64_def round_mag_def quantum_def expo_def rne_def compute_bitlen





lemma round64_pow2:
  assumes "- 1074 \<le> k" and "k \<le> 1023"
  shows "round64 (2 powi k) = Fin (2 powi k)"
proof -
  define x :: real where "x = 2 powi k"
  have x: "0 < x" by (simp add: x_def)
  have "x < 2 powi (k + 1)" unfolding x_def by (intro power_int_strict_increasing) simp_all
  then have e: "expo x = k" by (intro expo_unique[OF x]) (simp_all add: x_def)
  define j where "j = k - max k (- 1022) + 52"
  have j: "0 \<le> j" using assms(1) by (simp add: j_def max_def)
  have "quantum x = 2 powi (max k (- 1022) - 52)"
    unfolding quantum_def e ..
  then have "x / quantum x = 2 powi k / 2 powi (max k (- 1022) - 52)"
    by (simp only: x_def)
  also have "\<dots> = 2 powi (k - (max k (- 1022) - 52))"
    by (subst power_int_diff) simp_all
  also have "k - (max k (- 1022) - 52) = j" by (simp add: j_def)
  also have "(2::real) powi j = of_int (2 ^ nat j)" using j by (simp add: power_int_nonneg_exp)
  finally have "round_mag x = x" by (rule round_mag_exact)
  moreover have "x < 2 powi 1024" unfolding x_def using assms(2)
    by (intro power_int_strict_increasing) simp_all
  ultimately show ?thesis using x by (simp add: round64_pos x_def[symmetric])
qed

lemma tiny_duration_double: "is_double tiny_duration"
proof -
  have "tiny_duration = 2 powi (- 1070)" by (simp add: tiny_duration_def power_int_minus_divide)
  moreover have "round64 (2 powi (- 1070)) = Fin (2 powi (- 1070))"
    by (rule round64_pow2) simp_all
  ultimately show ?thesis by (simp only: is_double_def)
qed

text \<open>
  Claim C4. For every value the duration of the audio element can have,
  \<open>generateCaptions\<close> fails with \<open>InvalidDuration\<close> exactly when the duration is not finite
  or is \<open>\<le> 0\<close>.
\<close>

theorem generateCaptions_InvalidDuration_iff:
  fixes script :: jsstring
  assumes "is_media_duration duration"
  shows "(generateCaptions script (LoadedMetadata duration) = Inl InvalidDuration)
     = (\<not> js_isFinite duration \<or> js_le duration (Fin 0))"
proof (cases duration)
  case (Fin x)
  then have "0 \<le> x" using assms by (simp add: is_media_duration_def)
  then have "js_le duration (Fin 0) = (x = 0)" using Fin by (auto simp: js_le_def js_ge_def)
  then show ?thesis
    using Fin by (auto simp: generateCaptions_def js_strict_eq_def Let_def split: option.splits)
qed (simp_all add: generateCaptions_def)

theorem generateCaptions_InvalidDuration_iff_witness:
  "is_media_duration PosInf \<and> is_media_duration NaN \<and> is_media_duration (Fin 0)
   \<and> is_media_duration (Fin 2)
   \<and> generateCaptions example_script (LoadedMetadata PosInf) = Inl InvalidDuration
   \<and> generateCaptions example_script (LoadedMetadata NaN) = Inl InvalidDuration
   \<and> generateCaptions example_script (LoadedMetadata (Fin 0)) = Inl InvalidDuration
   \<and> generateCaptions example_script (LoadedMetadata (Fin 2)) \<noteq> Inl InvalidDuration"
proof -
  have a: "is_media_duration PosInf" and b: "is_media_duration NaN"
    and c: "is_media_duration (Fin 0)" and d: "is_media_duration (Fin 2)"
    by (simp_all add: is_media_duration_def)
  show ?thesis
    using a b c d
      generateCaptions_InvalidDuration_iff[OF a, of example_script]
      generateCaptions_InvalidDuration_iff[OF b, of example_script]
      generateCaptions_InvalidDuration_iff[OF c, of example_script]
      generateCaptions_InvalidDuration_iff[OF d, of example_script]
    by (simp add: js_le_def js_ge_def)
qed

lemma match_scan_quotes:
  "match_scan st s \<noteq> [] \<Longrightarrow>
     (case st of
        None \<Rightarrow> \<exists>i j. i < j \<and> j < length s \<and> s ! i = dquote \<and> s ! j = dquote
      | Some acc \<Rightarrow> \<exists>j<length s. s ! j = dquote)"
proof (induction s arbitrary: st)
  case Nil
  then show ?case by simp
next
  case (Cons c cs)
  show ?case
  proof (cases st)
    case None
    show ?thesis
    proof (cases "c = dquote")
      case True
      with Cons.prems None have "match_scan (Some []) cs \<noteq> []" by simp
      from Cons.IH[OF this] obtain j where "j < length cs" "cs ! j = dquote" by auto
      then have "0 < Suc j \<and> Suc j < length (c # cs) \<and> (c # cs) ! 0 = dquote \<and> (c # cs) ! Suc j = dquote"
        using True by simp
      then show ?thesis unfolding None option.case by blast
    next
      case False
      with Cons.prems None have "match_scan None cs \<noteq> []" by simp
      from Cons.IH[OF this] obtain i j where "i < j" "j < length cs" "cs ! i = dquote" "cs ! j = dquote"
        by auto
      then have "Suc i < Suc j \<and> Suc j < length (c # cs) \<and> (c # cs) ! Suc i = dquote \<and> (c # cs) ! Suc j = dquote"
        by simp
      then show ?thesis unfolding None option.case by blast
    qed
  next
    case (Some acc)
    show ?thesis
    proof (cases "c = dquote")
      case True
      then have "0 < length (c # cs) \<and> (c # cs) ! 0 = dquote" by simp
      then show ?thesis unfolding Some option.case by blast
    next
      case False
      have "\<exists>j<length cs. cs ! j = dquote"
      proof (cases "is_line_terminator c")
        case True
        with Cons.prems Some False have "match_scan None cs \<noteq> []" by simp
        from Cons.IH[OF this] show ?thesis by auto
      next
        case nl: False
        with Cons.prems Some False have "match_scan (Some (c # acc)) cs \<noteq> []" by simp
        from Cons.IH[OF this] show ?thesis by auto
      qed
      then obtain j where "j < length cs" "cs ! j = dquote" by auto
      then have "Suc j < length (c # cs) \<and> (c # cs) ! Suc j = dquote" by simp
      then show ?thesis unfolding Some option.case by blast
    qed
  qed
qed

lemma match_quoted_None:
  assumes "\<not> (\<exists>i j. i < j \<and> j < length s \<and> s ! i = dquote \<and> s ! j = dquote)"
  shows "match_quoted s = None"
proof -
  have "match_scan None s = []"
    using match_scan_quotes[of None s] assms by auto
  then show ?thesis by (simp add: match_quoted_def)
qed

text \<open>
  Claim C9. For a duration \<open>D > 0\<close>, \<open>generateCaptions\<close> returns the empty sequence when
  the script has no double-quoted substring (no two double quotes), and also when the total
  character count of the sentences is zero.
\<close>

theorem generateCaptions_empty:
  fixes script :: jsstring
  assumes "0 < D"
    and "(\<not> (\<exists>i j. i < j \<and> j < length script \<and> script ! i = dquote \<and> script ! j = dquote))
         \<or> totalLength (script_sentences script) = 0"
  shows "generateCaptions script (LoadedMetadata (Fin D)) = Inr []"
  using assms(2)
proof
  assume "\<not> (\<exists>i j. i < j \<and> j < length script \<and> script ! i = dquote \<and> script ! j = dquote)"
  then have "match_quoted script = None" by (rule match_quoted_None)
  then show ?thesis using assms(1) by (simp add: generateCaptions_def js_strict_eq_def)
next
  assume "totalLength (script_sentences script) = 0"
  then show ?thesis using assms(1)
    by (simp add: generateCaptions_def js_strict_eq_def script_sentences_def Let_def
             split: option.splits)
qed

theorem generateCaptions_empty_witness:
  "(0::real) < 3
   \<and> generateCaptions (js ''Intro: no narration'') (LoadedMetadata (Fin 3)) = Inr []
   \<and> generateCaptions [dquote, space, dquote] (LoadedMetadata (Fin 3)) = Inr []"
proof -
  have pos: "(0::real) < 3" by simp
  have "dquote \<notin> set (js ''Intro: no narration'')" by code_simp
  then have a: "\<not> (\<exists>i j. i < j \<and> j < length (js ''Intro: no narration'')
          \<and> js ''Intro: no narration'' ! i = dquote \<and> js ''Intro: no narration'' ! j = dquote)"
    by (metis nth_mem)
  have b: "totalLength (script_sentences [dquote, space, dquote]) = 0" by code_simp
  show ?thesis
    using pos generateCaptions_empty[OF pos disjI1[OF a]] generateCaptions_empty[OF pos disjI2[OF b]]
    by simp
qed


section \<open>The upload request\<close>

text \<open>
  Claim C10. Whatever the blob, the details and the token, the request \<open>uploadVideo\<close>
  builds has the privacy status \<open>private\<close>.
\<close>

theorem uploadVideo_private:
  "privacyStatus (status (metadata (upload_request videoBlob details tok))) = js ''private''"
  by (simp add: upload_request_def)


section \<open>The active visual\<close>

lemma js_sub_nat_one:
  assumes "1 \<le> n" and "n \<le> 2 ^ 53"
  shows "js_sub (Fin (real n)) (Fin 1) = Fin (real n - 1)"
proof -
  have "n - 1 \<le> 2 ^ 53" using assms(2) by simp
  then have "round64 (real (n - 1)) = Fin (real (n - 1))" by (rule round64_nat)
  moreover have "real (n - 1) = real n - 1" using assms(1) by simp
  ultimately show ?thesis by (simp add: js_sub_def)
qed

lemma slideDuration_nonneg:
  assumes "0 < D" and "1 \<le> n"
  shows "nonneg (slideDuration_of (Fin D) n)"
proof -
  have "0 \<le> D / real n" using assms by simp
  then show ?thesis using assms(2) by (simp add: slideDuration_of_def round64_nonneg)
qed

lemma quotient_nonneg:
  assumes "0 \<le> t" and "nonneg sd" and "sd \<noteq> Fin 0"
  shows "nonneg (js_div (Fin t) sd)"
proof (cases sd)
  case (Fin s)
  then have "0 < s" using assms(2,3) by (simp add: nonneg_def)
  then have "0 \<le> t / s" using assms(1) by simp
  then show ?thesis using Fin \<open>0 < s\<close> by (simp add: round64_nonneg)
qed (use assms(2) in \<open>simp_all add: nonneg_def\<close>)

lemma quotient_mono:
  assumes "0 \<le> t" and "t \<le> t'" and "nonneg sd" and "sd \<noteq> Fin 0"
  shows "js_le (js_div (Fin t) sd) (js_div (Fin t') sd)"
proof (cases sd)
  case (Fin s)
  then have s: "0 < s" using assms(3,4) by (simp add: nonneg_def)
  then have "0 \<le> t / s" "t / s \<le> t' / s" using assms(1,2) by (simp_all add: divide_right_mono)
  then have "js_le (round64 (t / s)) (round64 (t' / s))" by (rule round64_mono)
  then show ?thesis using Fin s by simp
qed (use assms(3) in \<open>simp_all add: nonneg_def js_le_def js_ge_def\<close>)

text \<open>The clamped floor of a number from zero upwards, as an integer.\<close>

lemma clamp_floor:
  assumes "nonneg q" and "0 \<le> m"
  shows "js_min (js_floor q) (Fin (of_int m))
           = Fin (of_int (case q of Fin r \<Rightarrow> min \<lfloor>r\<rfloor> m | _ \<Rightarrow> m))"
proof (cases q)
  case (Fin r)
  have "real_of_int (min \<lfloor>r\<rfloor> m) = min (of_int \<lfloor>r\<rfloor>) (of_int m)" by (simp add: min_def)
  then show ?thesis using Fin by (simp add: js_min_def min_def)
qed (use assms(1) in \<open>simp_all add: nonneg_def js_min_def\<close>)

lemma clamp_floor_range:
  assumes "nonneg q" and "0 \<le> m"
  shows "0 \<le> (case q of Fin r \<Rightarrow> min \<lfloor>r\<rfloor> m | _ \<Rightarrow> m)"
    and "(case q of Fin r \<Rightarrow> min \<lfloor>r\<rfloor> m | _ \<Rightarrow> m) \<le> m"
  using assms by (cases q; simp add: nonneg_def)+

lemma clamp_floor_mono:
  assumes "nonneg q" and "nonneg q'" and "js_le q q'"
  shows "(case q of Fin r \<Rightarrow> min \<lfloor>r\<rfloor> m | _ \<Rightarrow> m) \<le> (case q' of Fin r \<Rightarrow> min \<lfloor>r\<rfloor> m | _ \<Rightarrow> m)"
proof (cases q)
  case q: (Fin r)
  show ?thesis
  proof (cases q')
    case (Fin r')
    then have "r \<le> r'" using q assms(3) by (simp add: js_le_def js_ge_def)
    then have "\<lfloor>r\<rfloor> \<le> \<lfloor>r'\<rfloor>" by (rule floor_mono)
    then show ?thesis using q Fin by simp
  qed (use q assms(2) in \<open>simp_all add: nonneg_def\<close>)
next
  case PosInf
  then show ?thesis using assms(2,3) by (cases q') (simp_all add: nonneg_def js_le_def js_ge_def)
qed (use assms(1) in \<open>simp_all add: nonneg_def\<close>)

text \<open>The index as an integer, for a slide duration that is not zero.\<close>

lemma activeVisualIndex_int:
  assumes "1 \<le> n" and "n \<le> 2 ^ 53" and "0 \<le> t" and "nonneg sd" and "sd \<noteq> Fin 0"
  shows "activeVisualIndex (Fin t) sd n
           = Fin (of_int (case js_div (Fin t) sd of Fin r \<Rightarrow> min \<lfloor>r\<rfloor> (int n - 1)
                                                  | _ \<Rightarrow> int n - 1))"
proof -
  have "real n - 1 = of_int (int n - 1)" by simp
  then have "activeVisualIndex (Fin t) sd n
               = js_min (js_floor (js_div (Fin t) sd)) (Fin (of_int (int n - 1)))"
    unfolding activeVisualIndex_def js_sub_nat_one[OF assms(1,2)] by (simp only:)
  also have "\<dots> = Fin (of_int (case js_div (Fin t) sd of Fin r \<Rightarrow> min \<lfloor>r\<rfloor> (int n - 1)
                                                  | _ \<Rightarrow> int n - 1))"
    using quotient_nonneg[OF assms(3,4,5)] assms(1) by (intro clamp_floor) simp_all
  finally show ?thesis .
qed


lemma expo_ge:
  assumes "0 < x" and "2 powi j \<le> x"
  shows "j \<le> expo x"
proof (rule ccontr)
  assume "\<not> j \<le> expo x"
  then have "expo x + 1 \<le> j" by simp
  then have "(2::real) powi (expo x + 1) \<le> 2 powi j" by (intro power_int_increasing) simp_all
  then show False using expo_bounds(2)[OF assms(1)] assms(2) by linarith
qed

lemma round_mag_pow2:
  assumes "- 1074 \<le> k" and "k \<le> 1023"
  shows "round_mag (2 powi k) = 2 powi k"
proof -
  have "0 < (2::real) powi k" by simp
  moreover have "(2::real) powi k < 2 powi 1024"
    using assms(2) by (intro power_int_strict_increasing) simp_all
  ultimately show ?thesis
    using round64_pow2[OF assms] by (simp add: round64_pos split: if_splits)
qed

lemma double_pos:
  assumes "is_double D" and "0 < D"
  shows "round_mag D = D" and "D < 2 ^ 1024"
  using assms by (simp_all add: is_double_def round64_pos split: if_splits)

lemma error_bounds:
  fixes r a E :: real
  assumes "\<bar>r - a\<bar> \<le> a * E"
  shows "r \<le> a * (1 + E)" and "a * (1 - E) \<le> r"
  using assms by (simp_all add: abs_le_iff algebra_simps)

text \<open>
  Every slot is reached at some binary64 time, for at most \<open>2^32\<close> visuals and a slide
  duration in the normal range.
\<close>

lemma slot_reached:
  fixes D :: real
  assumes n: "1 \<le> n" "n \<le> 2 ^ 32" and D: "0 < D" "is_double D"
    and norm: "2 powi (- 1021) \<le> D / real n" and k: "k < n"
  shows "\<exists>t. 0 \<le> t \<and> t < D \<and> is_double t
           \<and> activeVisualIndex (Fin t) (slideDuration_of (Fin D) n) n = Fin (real k)"
proof -
  define E :: real where "E = 1 / 2 ^ 53"
  define d where "d = D / real n"
  define s where "s = round_mag d"
  define A where "A = real k + 1 / 2"
  define x where "x = A * s"
  define t where "t = round_mag x"
  define q where "q = t / s"
  define r where "r = round_mag q"
  have E: "0 < E" "E < 1" "2 ^ 32 * E \<le> 1 / 2 ^ 21" "2 ^ 33 * E < 1 / 4"
    "2 ^ 32 * (2 * E + E * E) < 1 / 2"
    by (simp_all add: E_def)
  have rn: "1 \<le> real n" "real n \<le> 2 ^ 32"
    using n by (simp, metis of_nat_le_iff of_nat_numeral of_nat_power)
  have rk: "0 \<le> real k" "real k + 1 \<le> real n" using k by simp_all
  have A: "1 / 2 \<le> A" "A \<le> real n - 1 / 2" "A \<le> 2 ^ 32" "0 < A"
    using rk rn by (simp_all add: A_def)
  have d: "0 < d" using D(1) rn by (simp add: d_def)
  have dD: "d * real n = D" using rn by (simp add: d_def)
  have ed: "- 1022 \<le> expo d"
    using expo_ge[OF d, of "- 1021"] norm by (simp add: d_def)
  have "\<bar>s - d\<bar> \<le> d / 2 ^ 53" unfolding s_def by (rule round_mag_error[OF d ed])
  then have "\<bar>s - d\<bar> \<le> d * E" by (simp add: E_def)
  note sb = error_bounds[OF this]
  have "round_mag (2 powi (- 1021)) \<le> round_mag d"
    using norm by (intro round_mag_mono) (simp_all add: d_def)
  then have s_low: "2 powi (- 1021) \<le> s"
    unfolding s_def by (subst (asm) round_mag_pow2) simp_all
  then have s: "0 < s" by (meson less_le_trans zero_less_numeral zero_less_power_int)
  have "d \<le> D" using rn D(1) by (simp add: d_def field_simps)
  then have "s \<le> round_mag D" unfolding s_def by (rule round_mag_mono[OF d])
  then have sD: "s \<le> D" "s < 2 ^ 1024" using double_pos[OF D(2,1)] by simp_all
  have sd: "slideDuration_of (Fin D) n = Fin s"
    using rn d sD(2) by (simp add: slideDuration_of_def round64_pos d_def[symmetric] s_def[symmetric])
  have x: "0 < x" using A(4) s by (simp add: x_def)
  have "(2::real) powi (- 1021) = 2 * 2 powi (- 1022)"
    by (simp add: power_int_minus_divide)
  then have "2 powi (- 1022) \<le> 1 / 2 * s" using s_low by simp
  also have "\<dots> \<le> A * s" using A(1) s by (intro mult_right_mono) simp_all
  finally have "2 powi (- 1022) \<le> x" by (simp add: x_def)
  then have ex: "- 1022 \<le> expo x" by (rule expo_ge[OF x])
  have "\<bar>t - x\<bar> \<le> x / 2 ^ 53" unfolding t_def by (rule round_mag_error[OF x ex])
  then have "\<bar>t - x\<bar> \<le> x * E" by (simp add: E_def)
  note tb = error_bounds[OF this]
  have t: "0 < t"
  proof -
    have "0 < x * (1 - E)" using x E by simp
    then show ?thesis using tb(2) by linarith
  qed
  have "t \<le> A * s * (1 + E)" using tb(1) by (simp add: x_def)
  also have "\<dots> \<le> A * (d * (1 + E)) * (1 + E)"
    using sb(1) A(4) E(1) by (intro mult_right_mono mult_left_mono) simp_all
  also have "\<dots> = d * (A + A * (2 * E + E * E))" by (simp add: algebra_simps)
  also have "\<dots> < d * real n"
  proof -
    have "A * (2 * E + E * E) \<le> 2 ^ 32 * (2 * E + E * E)"
      using A(3) E(1) by (intro mult_right_mono) simp_all
    then have "A + A * (2 * E + E * E) < real n" using A(2) E(5) by linarith
    then show ?thesis using d by simp
  qed
  finally have tD: "t < D" by (simp only: dD)
  then have "t < 2 ^ 1024" using double_pos(2)[OF D(2,1)] by linarith
  then have "round64 x = Fin t" using x by (simp add: round64_pos t_def)
  then have dt: "is_double t" by (rule round64_double)
  have AE: "A * E \<le> 1 / 4"
  proof -
    have "A * E \<le> 2 ^ 32 * E" using A(3) E(1) by (intro mult_right_mono) simp_all
    then show ?thesis using E(3) by simp
  qed
  have "t \<le> (A * (1 + E)) * s" using tb(1) by (simp add: x_def algebra_simps)
  then have "q \<le> A * (1 + E)" unfolding q_def using s by (simp add: pos_divide_le_eq)
  moreover have "A * (1 + E) = A + A * E" by (simp add: algebra_simps)
  moreover have Ak: "A = real k + 1 / 2" by (simp add: A_def)
  ultimately have q_up: "q \<le> real k + 3 / 4" using AE by linarith
  have "(A * (1 - E)) * s \<le> t" using tb(2) by (simp add: x_def algebra_simps)
  then have "A * (1 - E) \<le> q" unfolding q_def using s by (simp add: pos_le_divide_eq)
  moreover have "A * (1 - E) = A - A * E" by (simp add: algebra_simps)
  ultimately have q_low: "real k + 1 / 4 \<le> q" using AE Ak by linarith
  have q: "0 < q" using q_low rk(1) by linarith
  have "(2::real) powi (- 2) \<le> q" using q_low rk(1) by (simp add: power_int_minus_divide)
  then have "- 2 \<le> expo q" by (rule expo_ge[OF q])
  then have "\<bar>r - q\<bar> \<le> q / 2 ^ 53" unfolding r_def by (intro round_mag_error[OF q]) simp
  then have "\<bar>r - q\<bar> \<le> q * E" by (simp add: E_def)
  moreover have "q * E < 1 / 4"
  proof -
    have "q \<le> 2 ^ 33" using q_up rk(2) rn(2) by simp
    then have "q * E \<le> 2 ^ 33 * E" using E(1) by (intro mult_right_mono) simp_all
    then show ?thesis using E(4) by linarith
  qed
  ultimately have rb: "real k \<le> r" "r < real k + 1" using q_low q_up by (simp_all add: abs_le_iff)
  then have fl: "\<lfloor>r\<rfloor> = int k" by (simp add: floor_eq_iff)
  have "r < 2 ^ 1024" using rb(2) rk(2) rn(2) by simp
  then have quot: "js_div (Fin t) (Fin s) = Fin r"
    using s q by (simp add: round64_pos q_def[symmetric] r_def[symmetric])
  have "(2::nat) ^ 32 \<le> 2 ^ 53" by simp
  then have n53: "n \<le> 2 ^ 53" using n(2) by (rule le_trans[rotated])
  have "activeVisualIndex (Fin t) (Fin s) n = Fin (of_int (min \<lfloor>r\<rfloor> (int n - 1)))"
    using activeVisualIndex_int[OF n(1) n53, of t "Fin s"] t s quot by (simp add: nonneg_def)
  also have "min \<lfloor>r\<rfloor> (int n - 1) = int k" using fl k by simp
  finally have "activeVisualIndex (Fin t) (slideDuration_of (Fin D) n) n = Fin (real k)"
    by (simp add: sd)
  then show ?thesis using t tD dt by (intro exI[of _ t]) simp
qed


lemma js_le_antisym_Fin: "js_le (Fin a) (Fin b) \<Longrightarrow> js_le (Fin b) (Fin a) \<Longrightarrow> a = b"
  by (simp add: js_le_def js_ge_def)

text \<open>
  Claim C1, amended. For \<open>1 \<le> n \<le> 2^32\<close> visuals and a duration \<open>D > 0\<close> whose slide
  duration \<open>D / n\<close> is not zero in binary64 arithmetic, the index the render loop computes
  at a time \<open>t \<ge> 0\<close> is \<open>min(floor(t / (D / n)), n - 1)\<close> evaluated in binary64
  arithmetic; it is an integer in \<open>[0, n - 1]\<close>, it is 0 at time 0 and non-decreasing in
  \<open>t\<close>, so each value is the index on one contiguous range of times. When \<open>D\<close> is a
  binary64 value and \<open>D / n \<ge> 2^-1021\<close>, every value in \<open>[0, n - 1]\<close> is the index at
  some binary64 time in \<open>[0, D)\<close>.
\<close>

theorem activeVisualIndex_slots:
  fixes D :: real and n :: nat
  assumes "1 \<le> n" and "n \<le> 2 ^ 32" and "0 < D"
    and "slideDuration_of (Fin D) n \<noteq> Fin 0"
  shows "(\<forall>t. activeVisualIndex (Fin t) (slideDuration_of (Fin D) n) n
              = js_min (js_floor (js_div (Fin t) (js_div (Fin D) (Fin (real n)))))
                  (Fin (real n - 1)))
       \<and> (\<forall>t. 0 \<le> t \<longrightarrow>
             (\<exists>k. activeVisualIndex (Fin t) (slideDuration_of (Fin D) n) n = Fin (of_int k)
                  \<and> 0 \<le> k \<and> k \<le> int n - 1))
       \<and> activeVisualIndex (Fin 0) (slideDuration_of (Fin D) n) n = Fin 0
       \<and> (\<forall>t t'. 0 \<le> t \<and> t \<le> t' \<longrightarrow>
             js_le (activeVisualIndex (Fin t) (slideDuration_of (Fin D) n) n)
                   (activeVisualIndex (Fin t') (slideDuration_of (Fin D) n) n))
       \<and> (\<forall>t1 t2 t3. 0 \<le> t1 \<and> t1 \<le> t2 \<and> t2 \<le> t3
               \<and> activeVisualIndex (Fin t1) (slideDuration_of (Fin D) n) n
                   = activeVisualIndex (Fin t3) (slideDuration_of (Fin D) n) n \<longrightarrow>
             activeVisualIndex (Fin t2) (slideDuration_of (Fin D) n) n
               = activeVisualIndex (Fin t1) (slideDuration_of (Fin D) n) n)
       \<and> (is_double D \<and> 2 powi (- 1021) \<le> D / real n \<longrightarrow>
             (\<forall>k<n. \<exists>t. 0 \<le> t \<and> t < D \<and> is_double t
                \<and> activeVisualIndex (Fin t) (slideDuration_of (Fin D) n) n = Fin (real k)))"
proof -
  define sd where "sd = slideDuration_of (Fin D) n"
  define idx where "idx = (\<lambda>t. case js_div (Fin t) sd of Fin r \<Rightarrow> min \<lfloor>r\<rfloor> (int n - 1)
                                                       | _ \<Rightarrow> int n - 1)"
  have "(2::nat) ^ 32 \<le> 2 ^ 53" by simp
  then have n53: "n \<le> 2 ^ 53" using assms(2) by (rule le_trans[rotated])
  have sd: "nonneg sd" "sd \<noteq> Fin 0"
    using slideDuration_nonneg[OF assms(3,1)] assms(4) by (simp_all add: sd_def)
  have avi: "activeVisualIndex (Fin t) sd n = Fin (of_int (idx t))" if "0 \<le> t" for t
    unfolding idx_def by (rule activeVisualIndex_int[OF assms(1) n53 that sd])
  have rng: "0 \<le> idx t" "idx t \<le> int n - 1" if "0 \<le> t" for t
    unfolding idx_def
    using clamp_floor_range[OF quotient_nonneg[OF that sd], of "int n - 1"] assms(1) by simp_all
  have mono: "idx t \<le> idx t'" if "0 \<le> t" "t \<le> t'" for t t'
  proof -
    have t': "0 \<le> t'" using that by simp
    show ?thesis
      unfolding idx_def
      by (rule clamp_floor_mono[OF quotient_nonneg[OF that(1) sd] quotient_nonneg[OF t' sd]
            quotient_mono[OF that sd]])
  qed
  have a: "\<forall>t. activeVisualIndex (Fin t) sd n
              = js_min (js_floor (js_div (Fin t) (js_div (Fin D) (Fin (real n)))))
                  (Fin (real n - 1))"
    by (simp add: activeVisualIndex_def sd_def slideDuration_of_def
          js_sub_nat_one[OF assms(1) n53])
  have b: "\<forall>t. 0 \<le> t \<longrightarrow>
             (\<exists>k. activeVisualIndex (Fin t) sd n = Fin (of_int k) \<and> 0 \<le> k \<and> k \<le> int n - 1)"
    using avi rng by blast
  have "js_div (Fin 0) sd = Fin 0"
    using sd by (cases sd) (simp_all add: nonneg_def round64_def)
  then have "idx 0 = 0" using assms(1) by (simp add: idx_def)
  then have c: "activeVisualIndex (Fin 0) sd n = Fin 0" using avi[of 0] by simp
  have d: "\<forall>t t'. 0 \<le> t \<and> t \<le> t' \<longrightarrow>
             js_le (activeVisualIndex (Fin t) sd n) (activeVisualIndex (Fin t') sd n)"
  proof (intro allI impI)
    fix t t' :: real assume h: "0 \<le> t \<and> t \<le> t'"
    then have "0 \<le> t'" by simp
    then show "js_le (activeVisualIndex (Fin t) sd n) (activeVisualIndex (Fin t') sd n)"
      using h mono[of t t'] by (simp add: avi js_le_def js_ge_def)
  qed
  have e: "\<forall>t1 t2 t3. 0 \<le> t1 \<and> t1 \<le> t2 \<and> t2 \<le> t3
               \<and> activeVisualIndex (Fin t1) sd n = activeVisualIndex (Fin t3) sd n \<longrightarrow>
             activeVisualIndex (Fin t2) sd n = activeVisualIndex (Fin t1) sd n"
  proof (intro allI impI)
    fix t1 t2 t3 :: real
    assume h: "0 \<le> t1 \<and> t1 \<le> t2 \<and> t2 \<le> t3
               \<and> activeVisualIndex (Fin t1) sd n = activeVisualIndex (Fin t3) sd n"
    then have p: "0 \<le> t1" "0 \<le> t2" "0 \<le> t3" by simp_all
    have "idx t1 = idx t3" using h by (simp add: avi p)
    moreover have "idx t1 \<le> idx t2" "idx t2 \<le> idx t3" using h p mono by simp_all
    ultimately have "idx t2 = idx t1" by simp
    then show "activeVisualIndex (Fin t2) sd n = activeVisualIndex (Fin t1) sd n"
      by (simp add: avi p)
  qed
  have f: "is_double D \<and> 2 powi (- 1021) \<le> D / real n \<longrightarrow>
             (\<forall>k<n. \<exists>t. 0 \<le> t \<and> t < D \<and> is_double t
                \<and> activeVisualIndex (Fin t) sd n = Fin (real k))"
    unfolding sd_def using slot_reached[OF assms(1,2,3)] by blast
  show ?thesis
    using a b c d e f unfolding sd_def by (intro conjI)
qed

theorem activeVisualIndex_slots_witness:
  "(1::nat) \<le> 2 \<and> (2::nat) \<le> 2 ^ 32 \<and> (0::real) < 4 \<and> slideDuration_of (Fin 4) 2 \<noteq> Fin 0
   \<and> is_double 4 \<and> 2 powi (- 1021) \<le> (4::real) / real (2::nat)
   \<and> activeVisualIndex (Fin 0) (slideDuration_of (Fin 4) 2) 2 = Fin 0
   \<and> js_le (activeVisualIndex (Fin 1) (slideDuration_of (Fin 4) 2) 2)
            (activeVisualIndex (Fin 3) (slideDuration_of (Fin 4) 2) 2)
   \<and> (\<exists>t. 0 \<le> t \<and> t < 4 \<and> is_double t
          \<and> activeVisualIndex (Fin t) (slideDuration_of (Fin 4) 2) 2 = Fin 1)"
proof -
  have n: "(1::nat) \<le> 2" "(2::nat) \<le> 2 ^ 32" and D: "(0::real) < 4" by simp_all
  have r2: "round64 2 = Fin 2" using round64_nat[of 2] by simp
  have r4: "round64 4 = Fin 4" using round64_nat[of 4] by simp
  have sd: "slideDuration_of (Fin 4) 2 \<noteq> Fin 0" by (simp add: slideDuration_of_def r2)
  have d4: "is_double 4" by (simp add: is_double_def r4)
  have nm: "2 powi (- 1021) \<le> (4::real) / real (2::nat)"
    by (simp add: power_int_minus_divide)
  note th = activeVisualIndex_slots[OF n D sd]
  have a: "activeVisualIndex (Fin 0) (slideDuration_of (Fin 4) 2) 2 = Fin 0"
    using th by blast
  have b: "js_le (activeVisualIndex (Fin 1) (slideDuration_of (Fin 4) 2) 2)
            (activeVisualIndex (Fin 3) (slideDuration_of (Fin 4) 2) 2)"
    using th[THEN conjunct2, THEN conjunct2, THEN conjunct2, THEN conjunct1, rule_format, of 1 3]
    by simp
  have c: "\<exists>t. 0 \<le> t \<and> t < 4 \<and> is_double t
          \<and> activeVisualIndex (Fin t) (slideDuration_of (Fin 4) 2) 2 = Fin 1"
    using th[THEN conjunct2, THEN conjunct2, THEN conjunct2, THEN conjunct2, THEN conjunct2,
             rule_format, of 1] d4 nm by simp
  show ?thesis using n D sd d4 nm a b c by blast
qed

lemma rne_small:
  assumes "0 \<le> z" and "z < 1 / 2"
  shows "rne z = 0"
proof -
  have "\<lfloor>z\<rfloor> = 0" using assms by (simp add: floor_eq_iff)
  then show ?thesis using assms(2) by (simp add: rne_def)
qed

lemma round64_underflow:
  assumes "0 \<le> x" and "x < 2 powi (- 1075)"
  shows "round64 x = Fin 0"
proof (cases "x = 0")
  case True
  then show ?thesis by (simp add: round64_def)
next
  case False
  then have x: "0 < x" using assms(1) by simp
  have "expo x < - 1022"
  proof (rule ccontr)
    assume "\<not> expo x < - 1022"
    then have "(2::real) powi (- 1075) \<le> 2 powi (expo x)"
      by (intro power_int_increasing) simp_all
    then show False using expo_bounds(1)[OF x] assms(2) by linarith
  qed
  then have qu: "quantum x = 2 powi (- 1074)" by (simp add: quantum_def max_def)
  have "(2::real) powi (- 1075) = 1 / 2 * 2 powi (- 1074)" by (simp add: power_int_minus_divide)
  then have "x / quantum x < 1 / 2" using assms(2) by (simp add: qu pos_divide_less_eq)
  moreover have "0 \<le> x / quantum x" using x by (simp add: qu)
  ultimately have "rne (x / quantum x) = 0" by (intro rne_small)
  then have "round_mag x = 0" by (simp add: round_mag_def)
  then show ?thesis using x by (simp add: round64_pos)
qed

lemma quantum_subnormal:
  assumes "0 < x" and "x < 2 powi (- 1022)"
  shows "quantum x = 2 powi (- 1074)"
proof -
  have "expo x < - 1022"
  proof (rule ccontr)
    assume "\<not> expo x < - 1022"
    then have "(2::real) powi (- 1022) \<le> 2 powi (expo x)"
      by (intro power_int_increasing) simp_all
    then show False using expo_bounds(1)[OF assms(1)] assms(2) by linarith
  qed
  then show ?thesis by (simp add: quantum_def max_def)
qed

text \<open>The only binary64 value strictly between 0 and \<open>2^-1073\<close> is \<open>2^-1074\<close>.\<close>

lemma smallest_double:
  assumes "is_double t" and "0 < t" and "t < 2 powi (- 1073)"
  shows "t = 2 powi (- 1074)"
proof -
  define q :: real where "q = 2 powi (- 1074)"
  have q: "0 < q" by (simp add: q_def)
  have two: "(2::real) powi (- 1073) = 2 * q"
    unfolding q_def by (simp add: power_int_minus_divide)
  have "(2::real) powi (- 1073) \<le> 2 powi (- 1022)" by (intro power_int_increasing) simp_all
  then have "t < 2 powi (- 1022)" using assms(3) by linarith
  then have qu: "quantum t = q" unfolding q_def by (rule quantum_subnormal[OF assms(2)])
  define k where "k = rne (t / q)"
  have t: "t = of_int k * q"
    using double_pos(1)[OF assms(1,2)] by (simp add: round_mag_def qu k_def)
  have "0 < of_int k * q" using assms(2) t by simp
  then have "0 < k" using q by (simp add: zero_less_mult_iff)
  moreover have "of_int k * q < 2 * q" using assms(3)[unfolded two] t by linarith
  then have "(of_int k :: real) < 2" using mult_less_cancel_right_pos[OF q] by blast
  then have "k < 2" by simp
  ultimately have "k = 1" by simp
  then show ?thesis using t by (simp add: q_def)
qed

lemma skipped_slot:
  "{t. is_double t \<and> 0 \<le> t \<and> t < 2 powi (- 1073)} = {0, 2 powi (- 1074)}"
  "slideDuration_of (Fin (2 powi (- 1073))) 3 = Fin (2 powi (- 1074))"
  "activeVisualIndex (Fin 0) (slideDuration_of (Fin (2 powi (- 1073))) 3) 3 = Fin 0"
  "activeVisualIndex (Fin (2 powi (- 1074))) (slideDuration_of (Fin (2 powi (- 1073))) 3) 3 = Fin 1"
proof -
  define q :: real where "q = 2 powi (- 1074)"
  have q: "0 < q" by (simp add: q_def)
  have two: "(2::real) powi (- 1073) = 2 * q"
    unfolding q_def by (simp add: power_int_minus_divide)
  have dq: "is_double q"
    unfolding is_double_def q_def by (rule round64_pow2) simp_all
  have d0: "is_double 0" by (simp add: is_double_def round64_def)
  show "{t. is_double t \<and> 0 \<le> t \<and> t < 2 powi (- 1073)} = {0, 2 powi (- 1074)}"
  proof (intro equalityI subsetI)
    fix t assume "t \<in> {t. is_double t \<and> 0 \<le> t \<and> t < 2 powi (- 1073)}"
    then have t: "is_double t" "0 \<le> t" "t < 2 powi (- 1073)" by simp_all
    show "t \<in> {0, 2 powi (- 1074)}"
    proof (cases "t = 0")
      case True
      then show ?thesis by simp
    next
      case False
      then have "0 < t" using t(2) by simp
      then show ?thesis using smallest_double[OF t(1) _ t(3)] by simp
    qed
  next
    fix t :: real assume "t \<in> {0, 2 powi (- 1074)}"
    then have "t = 0 \<or> t = q" by (simp add: q_def)
    then show "t \<in> {t. is_double t \<and> 0 \<le> t \<and> t < 2 powi (- 1073)}"
      using d0 dq q unfolding two by auto
  qed
  have x: "0 < 2 * q / 3" using q by simp
  have "(2::real) powi (- 1074) \<le> 2 powi (- 1022)" by (intro power_int_increasing) simp_all
  then have "2 * q / 3 < 2 powi (- 1022)" using q unfolding q_def by linarith
  then have qu: "quantum (2 * q / 3) = q" unfolding q_def by (rule quantum_subnormal[OF x[unfolded q_def]])
  have "2 * q / 3 / q = 2 / 3" using q by simp
  moreover have "rne (2 / 3) = 1" by (simp add: rne_def)
  ultimately have rm: "round_mag (2 * q / 3) = q" by (simp add: round_mag_def qu)
  have "q < 2 ^ 1024"
  proof -
    have "q \<le> 2 powi 0" unfolding q_def by (intro power_int_increasing) simp_all
    also have "\<dots> < (2::real) ^ 1024" by simp
    finally show ?thesis .
  qed
  then have r: "round64 (2 * q / 3) = Fin q" using x by (simp add: round64_pos rm)
  have r3: "round64 3 = Fin 3" using round64_nat[of 3] by simp
  have r1: "round64 1 = Fin 1" using round64_nat[of 1] by simp
  have r2: "round64 2 = Fin 2" using round64_nat[of 2] by simp
  have r0: "round64 0 = Fin 0" by (simp add: round64_def)
  show sd: "slideDuration_of (Fin (2 powi (- 1073))) 3 = Fin (2 powi (- 1074))"
    unfolding two slideDuration_of_def using r by (simp add: q_def)
  have nz: "q \<noteq> 0" using q by simp
  show "activeVisualIndex (Fin 0) (slideDuration_of (Fin (2 powi (- 1073))) 3) 3 = Fin 0"
    unfolding sd q_def[symmetric]
    using nz by (simp add: activeVisualIndex_def js_min_def js_sub_def r0 r2)
  show "activeVisualIndex (Fin (2 powi (- 1074))) (slideDuration_of (Fin (2 powi (- 1073))) 3) 3 = Fin 1"
    unfolding sd q_def[symmetric]
    using nz by (simp add: activeVisualIndex_def js_min_def js_sub_def r1 r2)
qed

text \<open>
  Claim C1 as stated fails. With \<open>D = 1\<close> and \<open>n = 3\<close>, at the binary64 time nearest to
  \<open>1/3\<close> the loop's index is 1, while \<open>min(floor(t / (D / n)), n - 1)\<close> in exact
  arithmetic is 0: the slots are those of the rounded quotient. With \<open>D = 2^-1074\<close> and
  \<open>n = 3\<close> the slide duration rounds to zero and the index at time 0 is \<open>NaN\<close>. With
  \<open>D = 2^-1073\<close> and \<open>n = 3\<close> the only binary64 times in \<open>[0, D)\<close> are 0 and \<open>2^-1074\<close>,
  with the indices 0 and 1: the index 2 is never taken.
\<close>

theorem activeVisualIndex_counterexample:
  "(0::real) \<le> 6004799503160661 / 2 ^ 54 \<and> (6004799503160661 / 2 ^ 54 :: real) < 1
   \<and> is_double (6004799503160661 / 2 ^ 54)
   \<and> activeVisualIndex (Fin (6004799503160661 / 2 ^ 54)) (slideDuration_of (Fin 1) 3) 3 = Fin 1
   \<and> min \<lfloor>(6004799503160661 / 2 ^ 54 :: real) / (1 / real (3::nat))\<rfloor> (int 3 - 1) = 0
   \<and> activeVisualIndex (Fin 0) (slideDuration_of (Fin (2 powi (- 1074))) 3) 3 = NaN
   \<and> is_double (2 powi (- 1073))
   \<and> {t. is_double t \<and> 0 \<le> t \<and> t < 2 powi (- 1073)} = {0, 2 powi (- 1074)}
   \<and> activeVisualIndex (Fin 0) (slideDuration_of (Fin (2 powi (- 1073))) 3) 3 = Fin 0
   \<and> activeVisualIndex (Fin (2 powi (- 1074))) (slideDuration_of (Fin (2 powi (- 1073))) 3) 3
       = Fin 1"
proof -
  have a: "is_double (6004799503160661 / 2 ^ 54)"
    by (simp add: is_double_def round64_eval)
  have b: "activeVisualIndex (Fin (6004799503160661 / 2 ^ 54)) (slideDuration_of (Fin 1) 3) 3
             = Fin 1"
    by (simp add: activeVisualIndex_def slideDuration_of_def js_sub_def js_min_def round64_eval)
  have c: "min \<lfloor>(6004799503160661 / 2 ^ 54 :: real) / (1 / real (3::nat))\<rfloor> (int 3 - 1) = 0"
    by simp
  have "(2::real) powi (- 1074) / 3 < 2 powi (- 1075)" by (simp add: power_int_minus_divide)
  then have "round64 (2 powi (- 1074) / 3) = Fin 0" by (intro round64_underflow) simp_all
  then have d: "activeVisualIndex (Fin 0) (slideDuration_of (Fin (2 powi (- 1074))) 3) 3 = NaN"
    by (simp add: activeVisualIndex_def slideDuration_of_def js_min_def)
  have e: "is_double (2 powi (- 1073))"
    unfolding is_double_def by (rule round64_pow2) simp_all
  have abcd: "(0::real) \<le> 6004799503160661 / 2 ^ 54 \<and> (6004799503160661 / 2 ^ 54 :: real) < 1
   \<and> is_double (6004799503160661 / 2 ^ 54)
   \<and> activeVisualIndex (Fin (6004799503160661 / 2 ^ 54)) (slideDuration_of (Fin 1) 3) 3 = Fin 1
   \<and> min \<lfloor>(6004799503160661 / 2 ^ 54 :: real) / (1 / real (3::nat))\<rfloor> (int 3 - 1) = 0
   \<and> activeVisualIndex (Fin 0) (slideDuration_of (Fin (2 powi (- 1074))) 3) 3 = NaN"
    using a b c d by simp
  show ?thesis
    using abcd e skipped_slot(1,3,4) by (intro conjI) blast+
qed


section \<open>The render loop\<close>

lemma switch_visual_fields:
  "frame (switch_visual cfg v s) = frame s"
  "canvas (switch_visual cfg v s) = canvas s"
  "renderInterval (switch_visual cfg v s) = renderInterval s"
  "result (switch_visual cfg v s) = result s"
  "recorder (switch_visual cfg v s) = recorder s"
  by (simp_all add: switch_visual_def)

lemma caption_change_fields:
  "frame (caption_change c s) = frame s"
  "canvas (caption_change c s) = canvas s"
  "renderInterval (caption_change c s) = renderInterval s"
  "result (caption_change c s) = result s"
  "recorder (caption_change c s) = recorder s"
  by (simp_all add: caption_change_def)

lemma caption_fade_step_fields:
  "frame (caption_fade_step c s) = frame s"
  "canvas (caption_fade_step c s) = canvas s"
  "renderInterval (caption_fade_step c s) = renderInterval s"
  "result (caption_fade_step c s) = result s"
  "recorder (caption_fade_step c s) = recorder s"
  by (simp_all add: caption_fade_step_def)

lemmas step_fields = switch_visual_fields caption_change_fields caption_fade_step_fields

lemma on_tick_cleared: "\<not> renderInterval s \<Longrightarrow> on_tick cfg s = s"
  by (simp add: on_tick_def)

lemma on_tick_stop:
  assumes "renderInterval s" and "js_gt (frame s) (totalFrames cfg)"
  shows "\<not> renderInterval (on_tick cfg s)" and "frame (on_tick cfg s) = frame s"
    and "canvas (on_tick cfg s) = canvas s" and "result (on_tick cfg s) = result s"
    and "playing (on_tick cfg s) = map (\<lambda>p. False) (playing s)"
  using assms by (simp_all add: on_tick_def)

lemma on_tick_composite:
  assumes "renderInterval s" and "\<not> js_gt (frame s) (totalFrames cfg)"
  shows "renderInterval (on_tick cfg s)" and "frame (on_tick cfg s) = js_add (frame s) (Fin 1)"
    and "result (on_tick cfg s) = result s"
    and "\<exists>f. canvas (on_tick cfg s) = canvas s @ [f] \<and> cf_frame f = frame s
           \<and> cf_drawn f = (case js_index (mediaElements cfg) (cf_visualIndex f) of
                              None \<Rightarrow> None | Some m \<Rightarrow> cover m)"
  using assms by (simp_all add: on_tick_def Let_def step_fields)

lemma on_tick_result: "result (on_tick cfg s) = result s"
  by (simp add: on_tick_def Let_def step_fields)

lemma on_tick_recorder: "recorder s = Inactive \<Longrightarrow> recorder (on_tick cfg s) = Inactive"
  by (simp add: on_tick_def Let_def step_fields)

lemma handle_other:
  assumes "e \<noteq> Tick"
  shows "frame (handle cfg s e) = frame s" and "canvas (handle cfg s e) = canvas s"
    and "renderInterval (handle cfg s e) = renderInterval s"
    and "playing (handle cfg s e) = playing s"
  using assms by (cases e; simp add: resolve_def reject_def)+

lemma render_snoc: "render cfg (evs @ [e]) s = handle cfg (render cfg evs s) e"
  by (simp add: render_def)

lemma ticks_snoc: "ticks (evs @ [e]) = (if e = Tick then ticks evs + 1 else ticks evs)"
  by (simp add: ticks_def)

lemma frame_increment:
  assumes "k < 2 ^ 53"
  shows "js_add (Fin (real k)) (Fin 1) = Fin (real (Suc k))"
proof -
  have "Suc k \<le> 2 ^ 53" using assms by simp
  then have "round64 (real (Suc k)) = Fin (real (Suc k))" by (rule round64_nat)
  moreover have "real k + 1 = real (Suc k)" by simp
  ultimately show ?thesis by (simp only: js_add.simps)
qed

text \<open>
  The loop's invariant for a frame count below \<open>2^53\<close>: after any events, \<open>frame\<close> is
  the number of ticks so far (at most \<open>totalFrames + 1\<close>), the frames composited are
  numbered \<open>0, 1, \<dots>, frame - 1\<close>, and the interval is set until the tick after the last
  frame.
\<close>

lemma render_invariant:
  assumes T: "totalFrames cfg = Fin (real T)" and small: "T < 2 ^ 53"
  shows "frame (render cfg evs (initial_state ms)) = Fin (real (min (ticks evs) (T + 1)))
       \<and> map cf_frame (canvas (render cfg evs (initial_state ms)))
           = map (\<lambda>k. Fin (real k)) [0 ..< min (ticks evs) (T + 1)]
       \<and> renderInterval (render cfg evs (initial_state ms)) = (ticks evs \<le> T + 1)"
proof (induction evs rule: rev_induct)
  case Nil
  show ?case by (simp add: render_def initial_state_def ticks_def)
next
  case (snoc e evs)
  define s where "s = render cfg evs (initial_state ms)"
  define k where "k = min (ticks evs) (T + 1)"
  have IH: "frame s = Fin (real k)" "map cf_frame (canvas s) = map (\<lambda>k. Fin (real k)) [0 ..< k]"
    "renderInterval s = (ticks evs \<le> T + 1)"
    using snoc.IH by (simp_all add: s_def k_def)
  have gt: "js_gt (frame s) (totalFrames cfg) = (T < k)"
    by (simp add: T IH(1) js_gt_def)
  show ?case
  proof (cases "e = Tick")
    case False
    then show ?thesis
      unfolding render_snoc s_def[symmetric]
      using IH by (simp add: handle_other ticks_snoc k_def)
  next
    case True
    consider (cleared) "\<not> renderInterval s"
      | (stop) "renderInterval s" "T < k"
      | (draw) "renderInterval s" "\<not> T < k" by blast
    then show ?thesis
    proof cases
      case cleared
      then have "T + 1 < ticks evs" using IH(3) by simp
      then show ?thesis
        unfolding render_snoc s_def[symmetric] True handle.simps on_tick_cleared[OF cleared]
        using IH cleared by (simp add: ticks_snoc k_def)
    next
      case stop
      then have "js_gt (frame s) (totalFrames cfg)" by (simp add: gt)
      note st = on_tick_stop[OF stop(1) this]
      have eq: "ticks evs = T + 1" "k = T + 1" using IH(3) stop by (auto simp: k_def)
      show ?thesis
        unfolding render_snoc s_def[symmetric] True handle.simps ticks_snoc st(2,3)
        using st(1) IH(1,2) unfolding eq by simp
    next
      case draw
      then have "\<not> js_gt (frame s) (totalFrames cfg)" by (simp add: gt)
      note dr = on_tick_composite[OF draw(1) this]
      have kt: "k = ticks evs" "ticks evs \<le> T" using IH(3) draw by (auto simp: k_def)
      then have "k < 2 ^ 53" using small by simp
      then have fr: "frame (on_tick cfg s) = Fin (real (Suc k))"
        unfolding dr(2) IH(1) by (rule frame_increment)
      obtain f where f: "canvas (on_tick cfg s) = canvas s @ [f]" "cf_frame f = frame s"
        using dr(4) by blast
      have cv: "map cf_frame (canvas (on_tick cfg s)) = map (\<lambda>k. Fin (real k)) [0 ..< Suc k]"
        by (simp add: f IH(1,2))
      have m: "min (Suc (ticks evs)) (T + 1) = Suc k" using kt by simp
      show ?thesis
        unfolding render_snoc s_def[symmetric] True handle.simps ticks_snoc
        using dr(1) fr cv kt by (simp add: m)
    qed
  qed
qed

text \<open>With \<open>totalFrames = Infinity\<close> the interval is never cleared.\<close>

lemma render_never_stops:
  assumes "totalFrames cfg = PosInf"
  shows "renderInterval (render cfg evs (initial_state ms))"
proof (induction evs rule: rev_induct)
  case Nil
  show ?case by (simp add: render_def initial_state_def)
next
  case (snoc e evs)
  have gt: "\<not> js_gt (frame s) (totalFrames cfg)" for s
    unfolding assms js_gt_def by (cases "frame s") simp_all
  show ?case
  proof (cases "e = Tick")
    case True
    then show ?thesis
      unfolding render_snoc using on_tick_composite(1)[OF snoc.IH gt] by simp
  next
    case False
    then show ?thesis unfolding render_snoc using snoc.IH by (simp add: handle_other)
  qed
qed

lemma totalFrames_of:
  assumes "0 < D" and "D * 30 \<le> 2 ^ 53 - 1"
  shows "\<exists>T. T < 2 ^ 53 \<and> js_ceil (js_mul (Fin D) (Fin 30)) = Fin (real T)"
proof -
  have c: "round64 (real (2 ^ 53 - 1)) = Fin (real (2 ^ 53 - 1))" by (rule round64_nat) simp
  have r: "real (2 ^ 53 - 1) = 2 ^ 53 - 1" by simp
  have "0 \<le> D * 30" using assms(1) by simp
  then have nn: "nonneg (round64 (D * 30))" by (rule round64_nonneg)
  have "js_le (round64 (D * 30)) (round64 (2 ^ 53 - 1))"
    using assms by (intro round64_mono) simp_all
  then have "js_le (round64 (D * 30)) (Fin (2 ^ 53 - 1))" using c by (simp only: r)
  then obtain p where p: "round64 (D * 30) = Fin p" "0 \<le> p" "p \<le> 2 ^ 53 - 1"
    using nn by (cases "round64 (D * 30)") (simp_all add: nonneg_def js_le_def js_ge_def)
  define c where "c = \<lceil>p\<rceil>"
  have le: "c \<le> 2 ^ 53 - 1" using p(3) by (simp add: c_def ceiling_le_iff)
  have ge: "0 \<le> c" using p(2) by (simp add: c_def)
  have "nat c < 2 ^ 53" using le ge by (simp add: nat_less_iff)
  moreover have "real (nat c) = of_int c" using ge by simp
  ultimately show ?thesis using p(1) by (intro exI[of _ "nat c"]) (simp add: c_def)
qed

lemma onAudioLoad_Inr:
  assumes "onAudioLoad b vs d caps = Inr s"
  shows "\<exists>ms. load_all b vs = Inr ms \<and> s = render (run_config_of d ms caps) (events b) (initial_state ms)"
  using assms by (auto simp: onAudioLoad_def split: if_splits sum.splits)

text \<open>
  Claim C3, amended. For a finite duration \<open>D > 0\<close> with \<open>D * 30 \<le> 2^53 - 1\<close> the loop
  runs with \<open>totalFrames = ceil(D * 30)\<close>, the product rounded to binary64 before the
  ceiling, and composites the frames \<open>0, 1, 2, \<dots>\<close> in this order, one per tick and none
  skipped, up to \<open>totalFrames\<close> inclusive; the tick after that clears the interval. A
  2-second run that receives its ticks composites exactly 61 frames.
\<close>

theorem render_loop_frames:
  fixes D :: real
  assumes "0 < D" and "D * 30 \<le> 2 ^ 53 - 1" and "onAudioLoad b vs (Fin D) caps = Inr s"
  shows "\<exists>T. (\<forall>ms. totalFrames (run_config_of (Fin D) ms caps) = js_ceil (js_mul (Fin D) (Fin 30)))
       \<and> js_ceil (js_mul (Fin D) (Fin 30)) = Fin (real T)
       \<and> map cf_frame (canvas s) = map (\<lambda>k. Fin (real k)) [0 ..< min (ticks (events b)) (T + 1)]
       \<and> (renderInterval s \<longleftrightarrow> ticks (events b) \<le> T + 1)
       \<and> (D = 2 \<longrightarrow> T = 60)
       \<and> (D = 2 \<and> 62 \<le> ticks (events b) \<longrightarrow> length (canvas s) = 61 \<and> \<not> renderInterval s)"
proof -
  obtain ms where s: "s = render (run_config_of (Fin D) ms caps) (events b) (initial_state ms)"
    using onAudioLoad_Inr[OF assms(3)] by blast
  obtain T where T: "T < 2 ^ 53" "js_ceil (js_mul (Fin D) (Fin 30)) = Fin (real T)"
    using totalFrames_of[OF assms(1,2)] by blast
  have tf: "totalFrames (run_config_of (Fin D) ms caps) = Fin (real T)"
    using T(2) by (simp add: run_config_of_def)
  note inv = render_invariant[OF tf T(1), of "events b" ms, folded s]
  have a: "\<forall>ms. totalFrames (run_config_of (Fin D) ms caps) = js_ceil (js_mul (Fin D) (Fin 30))"
    by (simp add: run_config_of_def)
  have b: "map cf_frame (canvas s) = map (\<lambda>k. Fin (real k)) [0 ..< min (ticks (events b)) (T + 1)]"
    using inv by simp
  have c: "renderInterval s \<longleftrightarrow> ticks (events b) \<le> T + 1"
    using inv by simp
  have d: "D = 2 \<longrightarrow> T = 60"
  proof
    assume "D = 2"
    have "round64 (real 60) = Fin (real 60)" by (rule round64_nat) simp
    then have "js_ceil (js_mul (Fin 2) (Fin 30)) = Fin 60" by simp
    then show "T = 60" using T(2) \<open>D = 2\<close> by simp
  qed
  have e: "D = 2 \<and> 62 \<le> ticks (events b) \<longrightarrow> length (canvas s) = 61 \<and> \<not> renderInterval s"
  proof
    assume h: "D = 2 \<and> 62 \<le> ticks (events b)"
    then have n: "T = 60" using d by simp
    have "length (map cf_frame (canvas s)) = 61" unfolding b n using h by simp
    then show "length (canvas s) = 61 \<and> \<not> renderInterval s" using c h n by simp
  qed
  show ?thesis using a T(2) b c d e by blast
qed

lemma load_example_image:
  "load_visual (example_browser d (Loaded w h) evs) example_image = Inr (HTMLImageElement w h)"
  by (simp add: load_visual_def example_browser_def example_image_def startsWith_def js_def)

lemma load_example_clip:
  "load_visual (example_browser d (Loaded w h) evs) example_clip = Inr (HTMLVideoElement w h)"
  by (simp add: load_visual_def example_browser_def example_clip_def startsWith_def js_def)

lemma example_browser_fields:
  "events (example_browser d l evs) = evs"
  "recorder_supported (example_browser d l evs)"
  "context2d (example_browser d l evs)"
  "audio_of (example_browser d l evs) url = LoadedMetadata d"
  by (simp_all add: example_browser_def)

theorem render_loop_frames_witness:
  "(0::real) < 2 \<and> (2::real) * 30 \<le> 2 ^ 53 - 1
   \<and> (\<exists>s. onAudioLoad (example_browser (Fin 2) (Loaded 640 480)
                          (replicate 62 Tick @ [DataAvailable [1], RecorderStop]))
              [example_image] (Fin 2) [] = Inr s
          \<and> map cf_frame (canvas s) = map (\<lambda>k. Fin (real k)) [0 ..< 61]
          \<and> length (canvas s) = 61
          \<and> \<not> renderInterval s)"
proof -
  define b where "b = example_browser (Fin 2) (Loaded 640 480)
                          (replicate 62 Tick @ [DataAvailable [1], RecorderStop])"
  define s where "s = render (run_config_of (Fin 2) [HTMLImageElement 640 480] []) (events b)
                        (initial_state [HTMLImageElement 640 480])"
  have pos: "(0::real) < 2" and small: "(2::real) * 30 \<le> 2 ^ 53 - 1" by simp_all
  have run: "onAudioLoad b [example_image] (Fin 2) [] = Inr s"
    by (simp add: onAudioLoad_def b_def s_def load_example_image example_browser_fields
          js_strict_eq_def)
  have t: "ticks (events b) = 62"
    by (simp add: b_def example_browser_fields ticks_def)
  from render_loop_frames[OF pos small run] obtain T where T:
    "map cf_frame (canvas s) = map (\<lambda>k. Fin (real k)) [0 ..< min (ticks (events b)) (T + 1)]"
    "(2::real) = 2 \<longrightarrow> T = 60"
    "(2::real) = 2 \<and> 62 \<le> ticks (events b) \<longrightarrow> length (canvas s) = 61 \<and> \<not> renderInterval s"
    by blast
  have n: "T = 60" using T(2) by simp
  have m: "min (ticks (events b)) (T + 1) = 61" unfolding n t by simp
  have fr: "map cf_frame (canvas s) = map (\<lambda>k. Fin (real k)) [0 ..< 61]"
    using T(1) unfolding m .
  have "length (canvas s) = 61 \<and> \<not> renderInterval s" using T(3) t by simp
  then show ?thesis using pos small run fr unfolding b_def by blast
qed

text \<open>
  Claim C3 as stated fails. For the binary64 duration nearest to 1.1 the product
  \<open>D * 30\<close> rounds to 33, so \<open>totalFrames\<close> is 33 while the ceiling of the exact product
  is 34. For the finite duration \<open>2^1023\<close> the product overflows, \<open>totalFrames\<close> is
  \<open>Infinity\<close> and the loop never stops.
\<close>

theorem render_loop_counterexample:
  "(0::real) < 2476979795053773 / 2 ^ 51
   \<and> is_double (2476979795053773 / 2 ^ 51)
   \<and> totalFrames (run_config_of (Fin (2476979795053773 / 2 ^ 51)) [] []) = Fin 33
   \<and> \<lceil>(2476979795053773 / 2 ^ 51 :: real) * 30\<rceil> = 34
   \<and> is_double (2 ^ 1023)
   \<and> totalFrames (run_config_of (Fin (2 ^ 1023)) [] []) = PosInf
   \<and> renderInterval (render (run_config_of (Fin (2 ^ 1023)) [] []) [Tick, Tick, Tick]
                        (initial_state []))"
proof -
  have a: "is_double (2476979795053773 / 2 ^ 51)" by (simp add: is_double_def round64_eval)
  have b: "totalFrames (run_config_of (Fin (2476979795053773 / 2 ^ 51)) [] []) = Fin 33"
    by (simp add: run_config_of_def round64_eval)
  have c: "\<lceil>(2476979795053773 / 2 ^ 51 :: real) * 30\<rceil> = 34" by (simp add: ceiling_eq_iff)
  have "round64 (2 powi 1023) = Fin (2 powi 1023)" by (rule round64_pow2) simp_all
  then have d: "is_double (2 ^ 1023)" by (simp add: is_double_def)
  have "(2::real) ^ 1024 \<le> 2 ^ 1023 * 30" by simp
  then have "round64 (2 ^ 1023 * 30) = PosInf" by (rule round64_overflow)
  then have e: "totalFrames (run_config_of (Fin (2 ^ 1023)) [] []) = PosInf"
    by (simp only: run_config_of_def run_config.simps js_mul.simps js_ceil.simps)
  have f: "renderInterval (render (run_config_of (Fin (2 ^ 1023)) [] []) [Tick, Tick, Tick]
                        (initial_state []))"
    by (rule render_never_stops[OF e])
  show ?thesis using a b c d e f by simp
qed


section \<open>A visual without drawable dimensions\<close>




lemmas run_eval = render_def on_tick_def Let_def initial_state_def run_config_of_def
  slideDuration_of_def activeVisualIndex_def js_min_def js_max_def js_gt_def js_ge_def
  js_sub_def js_strict_eq_def signed_inf_def
  js_index_def array_index_def switch_visual_def set_playing_def is_video_def
  cover_def mediaWidth_def mediaHeight_def canvas_width_def canvas_height_def
  currentCaptionText_at_def caption_change_def caption_alpha_def caption_fade_step_def
  FADE_DURATION_FRAMES_def resolve_def reject_def concat_blob_def



section \<open>An empty visual list\<close>

text \<open>
  Claim C5. With no visuals no index is resolved: \<open>handleUpload\<close> and \<open>handleDownload\<close>,
  the only callers of \<open>createVideoBlob\<close>, end with the "at least one visual" error
  (\<open>NoVisuals\<close>) before a run is started, whatever the audio, its duration and the events.
\<close>

theorem no_visuals_refused:
  fixes details :: VideoDetails
  assumes "visuals details = []"
  shows "handleUpload b details = Some (Inl NoVisuals)
       \<and> handleDownload b details = Some (Inl NoVisuals)"
  using assms
  by (simp add: handleUpload_def handleDownload_def synthesize_def split: option.splits)

theorem no_visuals_refused_witness:
  "visuals (example_details []) = []
   \<and> handleUpload (example_browser (Fin 2) (Loaded 640 480) [Tick]) (example_details [])
       = Some (Inl NoVisuals)
   \<and> handleDownload (example_browser (Fin 2) (Loaded 640 480) [Tick]) (example_details [])
       = Some (Inl NoVisuals)"
proof -
  have v: "visuals (example_details []) = []" by (simp add: example_details_def)
  show ?thesis
    using v no_visuals_refused[OF v, of "example_browser (Fin 2) (Loaded 640 480) [Tick]"]
    by simp
qed


section \<open>A recorder error during the run\<close>

lemma handle_settled:
  assumes "result s \<noteq> Pending"
  shows "result (handle cfg s e) = result s"
  using assms by (cases e) (simp_all add: on_tick_result resolve_def reject_def)

lemma render_settled:
  assumes "result s \<noteq> Pending"
  shows "result (render cfg evs s) = result s"
  using assms
proof (induction evs arbitrary: s)
  case Nil
  then show ?case by (simp add: render_def)
next
  case (Cons e evs)
  have "result (handle cfg s e) \<noteq> Pending" using Cons.prems by (simp add: handle_settled)
  from Cons.IH[OF this] show ?case
    using Cons.prems by (simp add: render_def handle_settled)
qed

lemma handle_inactive:
  assumes "recorder s = Inactive"
  shows "recorder (handle cfg s e) = Inactive"
  using assms by (cases e) (simp_all add: on_tick_recorder resolve_def reject_def)

lemma render_inactive:
  assumes "recorder s = Inactive"
  shows "recorder (render cfg evs s) = Inactive"
  using assms
proof (induction evs arbitrary: s)
  case Nil
  then show ?case by (simp add: render_def)
next
  case (Cons e evs)
  have "recorder (handle cfg s e) = Inactive" using Cons.prems by (rule handle_inactive)
  from Cons.IH[OF this] show ?case by (simp add: render_def)
qed

text \<open>
  The loop's variables, the frames composited and the clips playing do not depend on the
  recorder's state or on the promise.
\<close>

lemma on_tick_loop:
  "on_tick cfg (s\<lparr>recorder := r, result := p\<rparr>)
     = (on_tick cfg s)\<lparr>recorder := recorder (on_tick cfg (s\<lparr>recorder := r, result := p\<rparr>)),
                       result := p\<rparr>"
  by (simp add: on_tick_def Let_def switch_visual_def caption_change_def caption_alpha_def
        caption_fade_step_def)

lemma handle_loop:
  "\<exists>r' p'. handle cfg (s\<lparr>recorder := r, result := p\<rparr>) e
              = (handle cfg s e)\<lparr>recorder := r', result := p'\<rparr>"
proof (cases e)
  case Tick
  show ?thesis unfolding Tick handle.simps using on_tick_loop by blast
next
  case (DataAvailable d)
  have "handle cfg (s\<lparr>recorder := r, result := p\<rparr>) (DataAvailable d)
          = (handle cfg s (DataAvailable d))\<lparr>recorder := r, result := p\<rparr>" by simp
  then show ?thesis unfolding DataAvailable by blast
next
  case RecorderError
  have "handle cfg (s\<lparr>recorder := r, result := p\<rparr>) RecorderError
          = (handle cfg s RecorderError)\<lparr>recorder := Inactive,
               result := (if p = Pending then Rejected RecordingError else p)\<rparr>"
    by (simp add: reject_def)
  then show ?thesis unfolding RecorderError by blast
next
  case RecorderStop
  have "handle cfg (s\<lparr>recorder := r, result := p\<rparr>) RecorderStop
          = (handle cfg s RecorderStop)\<lparr>recorder := r,
               result := (if p = Pending then Fulfilled (concat_blob (chunks s)) else p)\<rparr>"
    by (simp add: resolve_def)
  then show ?thesis unfolding RecorderStop by blast
next
  case AudioPlayRejected
  have "handle cfg (s\<lparr>recorder := r, result := p\<rparr>) AudioPlayRejected
          = (handle cfg s AudioPlayRejected)\<lparr>recorder := r,
               result := (if p = Pending then Rejected AudioPlaybackError else p)\<rparr>"
    by (simp add: reject_def)
  then show ?thesis unfolding AudioPlayRejected by blast
qed

lemma render_loop:
  "\<exists>r' p'. render cfg evs (s\<lparr>recorder := r, result := p\<rparr>)
              = (render cfg evs s)\<lparr>recorder := r', result := p'\<rparr>"
proof (induction evs rule: rev_induct)
  case Nil
  show ?case unfolding render_def by auto
next
  case (snoc e evs)
  then obtain r1 p1 where "render cfg evs (s\<lparr>recorder := r, result := p\<rparr>)
              = (render cfg evs s)\<lparr>recorder := r1, result := p1\<rparr>" by blast
  then show ?case unfolding render_snoc using handle_loop by simp
qed

lemma error_loop:
  "\<exists>r' p'. render cfg evs (handle cfg s RecorderError)
              = (render cfg evs s)\<lparr>recorder := r', result := p'\<rparr>"
proof -
  have "handle cfg s RecorderError
          = s\<lparr>recorder := Inactive,
              result := (if result s = Pending then Rejected RecordingError else result s)\<rparr>"
    by (simp add: reject_def)
  then show ?thesis using render_loop by simp
qed

text \<open>
  Claim C7, amended. If the recorder reports an error before the promise is fulfilled,
  the run is aborted with no file returned: no blob, partial or complete, is ever
  returned to the caller, whatever events follow, and a promise still pending is rejected
  with the recorder's error. The recorder is inactive from then on, so no further chunk is
  requested. The error neither stops the render loop nor pauses a clip: the frames
  composited, the interval and the clips playing are those of the run without the error,
  so the loop stops, and the clips are paused, on the tick after the last frame.
\<close>

theorem recorder_error_rejects:
  assumes "\<forall>blob. result s \<noteq> Fulfilled blob"
  shows "(result s = Pending \<longrightarrow>
            result (render cfg evs (handle cfg s RecorderError)) = Rejected RecordingError)
       \<and> (\<forall>blob. result (render cfg evs (handle cfg s RecorderError)) \<noteq> Fulfilled blob)
       \<and> recorder (render cfg evs (handle cfg s RecorderError)) = Inactive
       \<and> canvas (render cfg evs (handle cfg s RecorderError)) = canvas (render cfg evs s)
       \<and> renderInterval (render cfg evs (handle cfg s RecorderError))
           = renderInterval (render cfg evs s)
       \<and> playing (render cfg evs (handle cfg s RecorderError)) = playing (render cfg evs s)"
proof -
  have settled: "result (handle cfg s RecorderError) \<noteq> Pending"
    by (simp add: reject_def)
  have same: "result (render cfg evs (handle cfg s RecorderError))
                = result (handle cfg s RecorderError)"
    by (rule render_settled[OF settled])
  have a: "result s = Pending \<longrightarrow>
            result (render cfg evs (handle cfg s RecorderError)) = Rejected RecordingError"
    unfolding same by (simp add: reject_def)
  have b: "\<forall>blob. result (render cfg evs (handle cfg s RecorderError)) \<noteq> Fulfilled blob"
    unfolding same using assms by (simp add: reject_def)
  have "recorder (handle cfg s RecorderError) = Inactive" by (simp add: reject_def)
  then have c: "recorder (render cfg evs (handle cfg s RecorderError)) = Inactive"
    by (rule render_inactive)
  obtain r' p' where l: "render cfg evs (handle cfg s RecorderError)
              = (render cfg evs s)\<lparr>recorder := r', result := p'\<rparr>"
    using error_loop by blast
  have d: "canvas (render cfg evs (handle cfg s RecorderError)) = canvas (render cfg evs s)"
    "renderInterval (render cfg evs (handle cfg s RecorderError))
           = renderInterval (render cfg evs s)"
    "playing (render cfg evs (handle cfg s RecorderError)) = playing (render cfg evs s)"
    unfolding l by simp_all
  show ?thesis using a b c d by blast
qed

theorem recorder_error_rejects_witness:
  "(\<forall>blob. result (initial_state [HTMLVideoElement 640 480]) \<noteq> Fulfilled blob)
   \<and> result (initial_state [HTMLVideoElement 640 480]) = Pending
   \<and> result (render (run_config_of (Fin 1) [HTMLVideoElement 640 480] [])
               [Tick, DataAvailable [1], RecorderStop]
               (handle (run_config_of (Fin 1) [HTMLVideoElement 640 480] [])
                  (initial_state [HTMLVideoElement 640 480]) RecorderError))
       = Rejected RecordingError
   \<and> recorder (render (run_config_of (Fin 1) [HTMLVideoElement 640 480] [])
               [Tick, DataAvailable [1], RecorderStop]
               (handle (run_config_of (Fin 1) [HTMLVideoElement 640 480] [])
                  (initial_state [HTMLVideoElement 640 480]) RecorderError))
       = Inactive"
proof -
  have p: "result (initial_state [HTMLVideoElement 640 480]) = Pending"
    by (simp add: initial_state_def)
  then have q: "\<forall>blob. result (initial_state [HTMLVideoElement 640 480]) \<noteq> Fulfilled blob"
    by simp
  show ?thesis
    using p q recorder_error_rejects[OF q, of "run_config_of (Fin 1) [HTMLVideoElement 640 480] []"
              "[Tick, DataAvailable [1], RecorderStop]"]
    by simp
qed

text \<open>
  Claim C7 as stated fails: after the recorder's error the loop is not stopped and the
  clip is not paused. In a one-second run with one clip, the two ticks after the error
  still composite frames 1 and 2, the interval is still set and the clip still plays.
\<close>

theorem recorder_error_counterexample:
  "onAudioLoad (example_browser (Fin 1) (Loaded 640 480) [Tick, RecorderError, Tick, Tick])
     [example_clip] (Fin 1) []
     = Inr (render (run_config_of (Fin 1) [HTMLVideoElement 640 480] [])
              [Tick, RecorderError, Tick, Tick] (initial_state [HTMLVideoElement 640 480]))
   \<and> result (render (run_config_of (Fin 1) [HTMLVideoElement 640 480] [])
              [Tick, RecorderError, Tick, Tick] (initial_state [HTMLVideoElement 640 480]))
       = Rejected RecordingError
   \<and> map cf_frame (canvas (render (run_config_of (Fin 1) [HTMLVideoElement 640 480] [])
              [Tick, RecorderError, Tick, Tick] (initial_state [HTMLVideoElement 640 480])))
       = [Fin 0, Fin 1, Fin 2]
   \<and> renderInterval (render (run_config_of (Fin 1) [HTMLVideoElement 640 480] [])
              [Tick, RecorderError, Tick, Tick] (initial_state [HTMLVideoElement 640 480]))
   \<and> playing (render (run_config_of (Fin 1) [HTMLVideoElement 640 480] [])
              [Tick, RecorderError, Tick, Tick] (initial_state [HTMLVideoElement 640 480]))
       = [True]"
proof -
  have a: "onAudioLoad (example_browser (Fin 1) (Loaded 640 480) [Tick, RecorderError, Tick, Tick])
     [example_clip] (Fin 1) []
     = Inr (render (run_config_of (Fin 1) [HTMLVideoElement 640 480] [])
              [Tick, RecorderError, Tick, Tick] (initial_state [HTMLVideoElement 640 480]))"
    by (simp add: onAudioLoad_def load_example_clip example_browser_fields js_strict_eq_def)
  have r: "render (run_config_of (Fin 1) [HTMLVideoElement 640 480] [])
              [Tick, RecorderError, Tick, Tick] (initial_state [HTMLVideoElement 640 480])
     = \<lparr>frame = Fin 3, currentVisualIndex = Fin 0, lastCaptionText = [],
         captionFadeInFrames = 0, renderInterval = True, recorder = Inactive,
         chunks = [], result = Rejected RecordingError, playing = [True],
         audioContextClosed = False,
         canvas = map (\<lambda>k. \<lparr>cf_frame = Fin k, cf_visualIndex = Fin 0,
                               cf_drawn = Some \<lparr>dx = Fin 0, dy = Fin (- 120),
                                                 dWidth = Fin 1280, dHeight = Fin 960\<rparr>,
                               cf_caption = [], cf_alpha = None\<rparr>) [0, 1, 2]\<rparr>"
    by (simp add: run_eval round64_eval)
  have b: "result (render (run_config_of (Fin 1) [HTMLVideoElement 640 480] [])
              [Tick, RecorderError, Tick, Tick] (initial_state [HTMLVideoElement 640 480]))
       = Rejected RecordingError
   \<and> map cf_frame (canvas (render (run_config_of (Fin 1) [HTMLVideoElement 640 480] [])
              [Tick, RecorderError, Tick, Tick] (initial_state [HTMLVideoElement 640 480])))
       = [Fin 0, Fin 1, Fin 2]
   \<and> renderInterval (render (run_config_of (Fin 1) [HTMLVideoElement 640 480] [])
              [Tick, RecorderError, Tick, Tick] (initial_state [HTMLVideoElement 640 480]))
   \<and> playing (render (run_config_of (Fin 1) [HTMLVideoElement 640 480] [])
              [Tick, RecorderError, Tick, Tick] (initial_state [HTMLVideoElement 640 480]))
       = [True]"
    unfolding r by simp
  show ?thesis by (rule conjI[OF a b])
qed

section \<open>A failure of caption estimation\<close>

text \<open>
  A caption failure leaves nothing to degrade to: \<open>createVideoBlob\<close> loads the same audio
  and applies the same duration guard, so it rejects with the same error.
\<close>

lemma caption_failure_run_failure:
  fixes details :: VideoDetails
  assumes "generateCaptions (script details) (audio_of b url) = Inl e" and "context2d b"
  shows "createVideoBlob b vs url caps = Rejected e"
proof (cases "audio_of b url")
  case AudioFailed
  then show ?thesis using assms by (simp add: generateCaptions_def createVideoBlob_def)
next
  case (LoadedMetadata d)
  then have "e = InvalidDuration \<and> (\<not> js_isFinite d \<or> js_strict_eq d (Fin 0))"
    using assms(1) by (auto simp: generateCaptions_def Let_def split: if_splits option.splits)
  then show ?thesis
    using LoadedMetadata assms(2) by (simp add: createVideoBlob_def onAudioLoad_def)
qed

text \<open>
  Claim C8, amended. In a synthesis run (\<open>handleUpload\<close>, \<open>handleDownload\<close>) a failure of
  caption estimation aborts the run with that error: no video is composited and no
  container is produced. Only the preview falls back, to the empty caption list with the
  title shown.
\<close>

theorem caption_failure_aborts:
  fixes details :: VideoDetails
  assumes "audioDataUrl details = Some url" and "url \<noteq> []" and "visuals details \<noteq> []"
    and "generateCaptions (script details) (audio_of b url) = Inl e"
  shows "handleUpload b details = Some (Inl e)
       \<and> handleDownload b details = Some (Inl e)
       \<and> (script details \<noteq> [] \<longrightarrow> preview_captions b details = ([], title details))"
  using assms
  by (simp add: handleUpload_def handleDownload_def synthesize_def preview_captions_def)

theorem caption_failure_aborts_witness:
  "handleUpload (example_browser PosInf (Loaded 640 480) [Tick]) (example_details [example_image])
     = Some (Inl InvalidDuration)
   \<and> handleDownload (example_browser PosInf (Loaded 640 480) [Tick])
       (example_details [example_image]) = Some (Inl InvalidDuration)"
proof -
  define b where "b = example_browser PosInf (Loaded 640 480) [Tick]"
  define d where "d = example_details [example_image]"
  have u: "audioDataUrl d = Some (js ''data:audio/wav;base64,UklG'')"
    by (simp add: d_def example_details_def)
  have n: "js ''data:audio/wav;base64,UklG'' \<noteq> []" by (simp add: js_def)
  have v: "visuals d \<noteq> []" by (simp add: d_def example_details_def)
  have g: "generateCaptions (script d) (audio_of b (js ''data:audio/wav;base64,UklG''))
             = Inl InvalidDuration"
    by (simp add: b_def example_browser_def generateCaptions_def)
  show ?thesis
    using caption_failure_aborts[OF u n v g] unfolding b_def d_def by simp
qed

text \<open>
  Claim C8 as stated fails: with an audio of non-finite duration caption estimation
  fails, and the download ends with that error instead of a container.
\<close>

theorem caption_failure_counterexample:
  "generateCaptions (script (example_details [example_image]))
       (audio_of (example_browser PosInf (Loaded 640 480) [Tick])
          (js ''data:audio/wav;base64,UklG'')) = Inl InvalidDuration
   \<and> handleDownload (example_browser PosInf (Loaded 640 480) [Tick])
       (example_details [example_image]) = Some (Inl InvalidDuration)"
  by (simp add: handleDownload_def synthesize_def example_details_def example_browser_def
        generateCaptions_def js_def)


end
